theory Spec2Isabelle
  imports Complex_Main
begin

section \<open>Function tables\<close>

text \<open>
  The engine's numbers are JavaScript numbers; they are modelled as the reals they
  approximate (\<open>Math.exp\<close> is \<open>exp\<close>, \<open>Math.tanh\<close> is \<open>tanh\<close>), counters as naturals.
  The numbers that are no reals, the two infinities and \<open>NaN\<close>, have a section of
  their own below, with the forward pass on them.
  An activation or error function is an object with two function-valued properties.
\<close>

record ErrorFunction =
  err_error :: "real \<Rightarrow> real \<Rightarrow> real"
  err_der :: "real \<Rightarrow> real \<Rightarrow> real"

record ActivationFunction =
  act_output :: "real \<Rightarrow> real"
  act_der :: "real \<Rightarrow> real"

text \<open>
  \<open>updateWeights\<close> compares a link's regularization with the object
  \<open>RegularizationFunction.L1\<close> by identity (\<open>===\<close>), so the two built-in objects are
  constructors of their own and any caller-supplied object is \<open>RegOther\<close>.
\<close>

datatype RegularizationFunction = L1 | L2 | RegOther "real \<Rightarrow> real" "real \<Rightarrow> real"

fun reg_output :: "RegularizationFunction \<Rightarrow> real \<Rightarrow> real" where
  "reg_output L1 w = \<bar>w\<bar>"
| "reg_output L2 w = 0.5 * w * w"
| "reg_output (RegOther f g) w = f w"

fun reg_der :: "RegularizationFunction \<Rightarrow> real \<Rightarrow> real" where
  "reg_der L1 w = (if w < 0 then - 1 else (if w > 0 then 1 else 0))"
| "reg_der L2 w = w"
| "reg_der (RegOther f g) w = g w"

definition SQUARE :: ErrorFunction where
  "SQUARE = \<lparr> err_error = (\<lambda>output target. 0.5 * (output - target) ^ 2),
              err_der = (\<lambda>output target. output - target) \<rparr>"

definition TANH :: ActivationFunction where
  "TANH = \<lparr> act_output = (\<lambda>x. tanh x),
            act_der = (\<lambda>x. let output = tanh x in 1 - output * output) \<rparr>"

definition RELU :: ActivationFunction where
  "RELU = \<lparr> act_output = (\<lambda>x. max 0 x),
            act_der = (\<lambda>x. if x \<le> 0 then 0 else 1) \<rparr>"

definition SIGMOID :: ActivationFunction where
  "SIGMOID = \<lparr> act_output = (\<lambda>x. 1 / (1 + exp (- x))),
               act_der = (\<lambda>x. let output = 1 / (1 + exp (- x)) in output * (1 - output)) \<rparr>"

definition LINEAR :: ActivationFunction where
  "LINEAR = \<lparr> act_output = (\<lambda>x. x), act_der = (\<lambda>x. 1) \<rparr>"

section \<open>Graph model: nodes and links in a store\<close>

text \<open>
  Nodes and links are objects that refer to each other: a link sits in its source's
  \<open>outputs\<close> and in its destination's \<open>inputLinks\<close>. The store maps a node reference
  and a link reference (naturals) to the object's fields; \<open>nextNode\<close> and \<open>nextLink\<close>
  are the references that the next \<open>new Node\<close> and \<open>new Link\<close> receive. A network
  (\<open>Node[][]\<close>) is a list of layers of node references. Every node has its own two
  arrays of link references, as the class initialises them; the identifier of a link
  is \<open>lid\<close>, that of a node \<open>nid\<close>, and a link's counter is
  \<open>linkNumAccumulatedDers\<close>.
\<close>

record Node =
  nid :: "string option"
  inputLinks :: "nat list"
  bias :: real
  outputs :: "nat list"
  totalInput :: real
  "output" :: real
  outputDer :: real
  inputDer :: real
  accInputDer :: real
  numAccumulatedDers :: nat
  activation :: ActivationFunction

record Link =
  lid :: string
  source :: nat
  dest :: nat
  weight :: real
  isDead :: bool
  errorDer :: real
  accErrorDer :: real
  linkNumAccumulatedDers :: nat
  regularization :: "RegularizationFunction option"

record heap =
  nodeAt :: "nat \<Rightarrow> Node"
  linkAt :: "nat \<Rightarrow> Link"
  nextNode :: nat
  nextLink :: nat

type_synonym Network = "nat list list"

datatype error = ShapeMismatch | TypeError

definition setNode :: "nat \<Rightarrow> (Node \<Rightarrow> Node) \<Rightarrow> heap \<Rightarrow> heap" where
  "setNode a f h = h\<lparr>nodeAt := (nodeAt h)(a := f (nodeAt h a))\<rparr>"

definition setLink :: "nat \<Rightarrow> (Link \<Rightarrow> Link) \<Rightarrow> heap \<Rightarrow> heap" where
  "setLink a f h = h\<lparr>linkAt := (linkAt h)(a := f (linkAt h a))\<rparr>"

text \<open>\<open>for (let i = lo; i < hi; i++) body\<close> over a state.\<close>

function for_loop :: "nat \<Rightarrow> nat \<Rightarrow> (nat \<Rightarrow> 's \<Rightarrow> 's) \<Rightarrow> 's \<Rightarrow> 's" where
  "for_loop i hi body s = (if i < hi then for_loop (Suc i) hi body (body i s) else s)"
  by pat_completeness auto
termination
  by (relation "measure (\<lambda>(i, hi, body, s). hi - i)") auto

declare for_loop.simps [simp del]

text \<open>
  \<open>for (let i = 0; i < xs.length; i++) { let x = xs[i]; body }\<close>: the loops of the
  engine that visit every element of an array they do not change.
\<close>

definition forEach :: "'a list \<Rightarrow> ('a \<Rightarrow> 's \<Rightarrow> 's) \<Rightarrow> 's \<Rightarrow> 's" where
  "forEach xs body = for_loop 0 (length xs) (\<lambda>i. body (xs ! i))"

section \<open>Building a network\<close>

text \<open>
  The store before any object is created. A reference at or beyond \<open>nextNode\<close>
  (\<open>nextLink\<close>) names no object yet; the store holds a placeholder there.
\<close>

definition blankNode :: Node where
  "blankNode = \<lparr> nid = None, inputLinks = [], bias = 0, outputs = [], totalInput = 0,
      output = 0, outputDer = 0, inputDer = 0, accInputDer = 0, numAccumulatedDers = 0,
      activation = LINEAR \<rparr>"

definition blankLink :: Link where
  "blankLink = \<lparr> lid = [], source = 0, dest = 0, weight = 0, isDead = False, errorDer = 0,
      accErrorDer = 0, linkNumAccumulatedDers = 0, regularization = None \<rparr>"

definition emptyHeap :: heap where
  "emptyHeap = \<lparr> nodeAt = (\<lambda>a. blankNode), linkAt = (\<lambda>a. blankLink),
      nextNode = 0, nextLink = 0 \<rparr>"

text \<open>
  \<open>new Node(id, activation, initZero)\<close>. The class gives \<open>totalInput\<close> and \<open>output\<close>
  no initial value; \<open>unset\<close> stands for what such a field holds before its first
  assignment. An identifier is \<open>None\<close> when it is \<open>undefined\<close> (\<open>inputIds[i]\<close> read
  past the end of \<open>inputIds\<close>).
\<close>

definition newNode :: "string option \<Rightarrow> ActivationFunction \<Rightarrow> bool \<Rightarrow> real \<Rightarrow> heap \<Rightarrow> heap" where
  "newNode ident act initZero unset h =
     h\<lparr>nodeAt := (nodeAt h)(nextNode h :=
          \<lparr> nid = ident, inputLinks = [], bias = (if initZero then 0 else 0.1),
            outputs = [], totalInput = unset, output = unset, outputDer = 0, inputDer = 0,
            accInputDer = 0, numAccumulatedDers = 0, activation = act \<rparr>),
       nextNode := Suc (nextNode h)\<rparr>"

definition showId :: "string option \<Rightarrow> string" where
  "showId ident = (case ident of None \<Rightarrow> ''undefined'' | Some s \<Rightarrow> s)"

text \<open>
  \<open>new Link(source, dest, regularization, initZero)\<close>; \<open>random\<close> is the value that
  \<open>Math.random()\<close> returns in the initialiser of \<open>weight\<close>.
\<close>

definition newLink :: "nat \<Rightarrow> nat \<Rightarrow> RegularizationFunction option \<Rightarrow> bool \<Rightarrow> real \<Rightarrow> heap \<Rightarrow> heap" where
  "newLink src dst reg initZero random h =
     h\<lparr>linkAt := (linkAt h)(nextLink h :=
          \<lparr> lid = showId (nid (nodeAt h src)) @ ''-'' @ showId (nid (nodeAt h dst)),
            source = src, dest = dst, weight = (if initZero then 0 else random - 0.5),
            isDead = False, errorDer = 0, accErrorDer = 0, linkNumAccumulatedDers = 0,
            regularization = reg \<rparr>),
       nextLink := Suc (nextLink h)\<rparr>"

text \<open>\<open>id.toString()\<close> of a natural number: its decimal digits.\<close>

fun toString :: "nat \<Rightarrow> string" where
  "toString n = (if n < 10 then [char_of (48 + n)]
                 else toString (n div 10) @ [char_of (48 + n mod 10)])"

declare toString.simps [simp del]

text \<open>The local variables of \<open>buildNetwork\<close> that its loops change.\<close>

record build =
  b_id :: nat
  b_network :: Network
  b_heap :: heap

text \<open>
  The innermost loop of \<open>buildNetwork\<close>: one new link from every node of the previous
  layer to \<open>node\<close>, pushed onto the source's \<open>outputs\<close> and onto \<open>node.inputLinks\<close>.
  \<open>rnd k\<close> is the result of the call of \<open>Math.random()\<close> made for the link whose
  reference is \<open>k\<close>.
\<close>

definition linkPrevLayer ::
  "nat list \<Rightarrow> nat \<Rightarrow> RegularizationFunction option \<Rightarrow> bool \<Rightarrow> (nat \<Rightarrow> real) \<Rightarrow> heap \<Rightarrow> heap" where
  "linkPrevLayer prevLayer node reg initZero rnd h =
     forEach prevLayer (\<lambda>prevNode s.
       let link = nextLink s;
           s1 = newLink prevNode node reg initZero (rnd link) s;
           s2 = setNode prevNode (\<lambda>n. n\<lparr>outputs := outputs n @ [link]\<rparr>) s1
       in setNode node (\<lambda>n. n\<lparr>inputLinks := inputLinks n @ [link]\<rparr>) s2) h"

text \<open>The body of the loop over \<open>i\<close>: one new node of layer \<open>layerIdx\<close>.\<close>

definition addNode ::
  "nat \<Rightarrow> nat \<Rightarrow> ActivationFunction \<Rightarrow> ActivationFunction \<Rightarrow> RegularizationFunction option \<Rightarrow>
   string list \<Rightarrow> bool \<Rightarrow> (nat \<Rightarrow> real) \<Rightarrow> real \<Rightarrow> nat \<Rightarrow> build \<Rightarrow> build" where
  "addNode numLayers layerIdx act outputActivation reg inputIds initZero rnd unset i s =
     (let isOutputLayer = (layerIdx = numLayers - 1);
          isInputLayer = (layerIdx = 0);
          nodeId = (if isInputLayer
                    then (if i < length inputIds then Some (inputIds ! i) else None)
                    else Some (toString (b_id s)));
          s1 = (if isInputLayer then s else s\<lparr>b_id := b_id s + 1\<rparr>);
          node = nextNode (b_heap s1);
          s2 = s1\<lparr>b_heap := newNode nodeId (if isOutputLayer then outputActivation else act)
                                initZero unset (b_heap s1)\<rparr>;
          s3 = s2\<lparr>b_network := (b_network s2)[layerIdx := b_network s2 ! layerIdx @ [node]]\<rparr>
      in if layerIdx \<ge> 1
         then s3\<lparr>b_heap := linkPrevLayer (b_network s3 ! (layerIdx - 1)) node reg initZero rnd
                               (b_heap s3)\<rparr>
         else s3)"

text \<open>
  \<open>buildNetwork\<close> returns the store that holds the new objects, and the network. The
  layer sizes of \<open>networkShape\<close> are natural numbers.
\<close>

definition buildNetwork ::
  "nat list \<Rightarrow> ActivationFunction \<Rightarrow> ActivationFunction \<Rightarrow> RegularizationFunction option \<Rightarrow>
   string list \<Rightarrow> bool \<Rightarrow> (nat \<Rightarrow> real) \<Rightarrow> real \<Rightarrow> heap \<times> Network" where
  "buildNetwork networkShape act outputActivation reg inputIds initZero rnd unset =
     (let numLayers = length networkShape;
          s0 = \<lparr> b_id = 1, b_network = [], b_heap = emptyHeap \<rparr>;
          s = for_loop 0 numLayers (\<lambda>layerIdx s.
                let s1 = s\<lparr>b_network := b_network s @ [[]]\<rparr>;
                    numNodes = networkShape ! layerIdx
                in for_loop 0 numNodes
                     (addNode numLayers layerIdx act outputActivation reg inputIds initZero
                        rnd unset) s1) s0
      in (b_heap s, b_network s))"

section \<open>Forward propagation\<close>

text \<open>
  \<open>Node.updateOutput\<close>, with \<open>this\<close> the node's reference. The value it returns
  (\<open>this.output\<close>) is never used by a caller, so the model returns the store only.
\<close>

definition updateOutput :: "nat \<Rightarrow> heap \<Rightarrow> heap" where
  "updateOutput this h =
    (let h1 = setNode this (\<lambda>n. n\<lparr>totalInput := bias n\<rparr>) h;
         h2 = forEach (inputLinks (nodeAt h1 this)) (\<lambda>link s.
                setNode this (\<lambda>n. n\<lparr>totalInput := totalInput n +
                     weight (linkAt s link) * output (nodeAt s (source (linkAt s link)))\<rparr>) s) h1
     in setNode this (\<lambda>n. n\<lparr>output := act_output (activation n) (totalInput n)\<rparr>) h2)"

text \<open>
  \<open>forwardProp\<close> returns the store it leaves behind together with the returned number
  or the exception thrown: \<open>network[0].length\<close> on an empty network and
  \<open>network[network.length - 1][0].output\<close> on an empty last layer are TypeErrors of the
  runtime, the length check throws the \<open>Error\<close> that the specification calls
  ShapeMismatch.
\<close>

definition forwardProp :: "Network \<Rightarrow> real list \<Rightarrow> heap \<Rightarrow> heap \<times> (error + real)" where
  "forwardProp network inputs h =
    (if network = [] then (h, Inl TypeError)
     else let inputLayer = network ! 0 in
       if length inputs \<noteq> length inputLayer then (h, Inl ShapeMismatch)
       else
         let h1 = for_loop 0 (length inputLayer) (\<lambda>i s.
                    setNode (inputLayer ! i) (\<lambda>n. n\<lparr>output := inputs ! i\<rparr>) s) h;
             h2 = for_loop 1 (length network) (\<lambda>layerIdx s.
                    forEach (network ! layerIdx) updateOutput s) h1
         in (case network ! (length network - 1) of
               [] \<Rightarrow> (h2, Inl TypeError)
             | node # rest \<Rightarrow> (h2, Inr (output (nodeAt h2 node)))))"

section \<open>Forward propagation on doubles\<close>

text \<open>
  A real stands for a finite double. A JavaScript number can also be \<open>Infinity\<close>,
  \<open>-Infinity\<close> or \<open>NaN\<close>, and neither \<open>Node.updateOutput\<close> nor \<open>forwardProp\<close> tests
  for them, so this section has the forward pass once more, on numbers of that kind.
  \<open>rounded r\<close> is the double that an operation on finite doubles returns when its exact
  result is \<open>r\<close>: an infinity when \<open>r\<close> reaches \<open>2^1024 - 2^970\<close> in magnitude (where
  rounding to nearest leaves the doubles), and \<open>r\<close> itself otherwise. Rounding within
  the range of the doubles and the sign of zero are not modelled.
\<close>

datatype number = Finite real | Infinity | MinusInfinity | NaN







text \<open>
  The objects on doubles, with the fields that the forward pass reads or writes and the
  flag \<open>isDead\<close>, which it does not read.
\<close>

record ActivationFunction_double =
  act_output_double :: "number \<Rightarrow> number"
  act_der_double :: "number \<Rightarrow> number"

record Node_double =
  inputLinks_double :: "nat list"
  bias_double :: number
  totalInput_double :: number
  output_double :: number
  activation_double :: ActivationFunction_double

record Link_double =
  source_double :: nat
  weight_double :: number
  isDead_double :: bool

record heap_double =
  nodeAt_double :: "nat \<Rightarrow> Node_double"
  linkAt_double :: "nat \<Rightarrow> Link_double"


definition setNode_double :: "nat \<Rightarrow> (Node_double \<Rightarrow> Node_double) \<Rightarrow> heap_double \<Rightarrow> heap_double" where
  "setNode_double a f h = h\<lparr>nodeAt_double := (nodeAt_double h)(a := f (nodeAt_double h a))\<rparr>"





section \<open>Back propagation\<close>

text \<open>The three assignments of the first loop of \<open>backProp\<close> to one node.\<close>

definition backPropNode :: "Node \<Rightarrow> Node" where
  "backPropNode n =
     (let n1 = n\<lparr>inputDer := outputDer n * act_der (activation n) (totalInput n)\<rparr>;
          n2 = n1\<lparr>accInputDer := accInputDer n1 + inputDer n1\<rparr>
      in n2\<lparr>numAccumulatedDers := numAccumulatedDers n2 + 1\<rparr>)"

text \<open>
  The three assignments of the second loop to one link that is not dead; \<open>nodeInputDer\<close>
  is \<open>node.inputDer\<close> and \<open>sourceOutput\<close> is \<open>link.source.output\<close>.
\<close>

definition backPropLink :: "real \<Rightarrow> real \<Rightarrow> Link \<Rightarrow> Link" where
  "backPropLink nodeInputDer sourceOutput l =
     (let l1 = l\<lparr>errorDer := nodeInputDer * sourceOutput\<rparr>;
          l2 = l1\<lparr>accErrorDer := accErrorDer l1 + errorDer l1\<rparr>
      in l2\<lparr>linkNumAccumulatedDers := linkNumAccumulatedDers l2 + 1\<rparr>)"

text \<open>
  One round of the loop over \<open>layerIdx\<close>, which counts down from
  \<open>network.length - 1\<close> while \<open>layerIdx >= 1\<close>.
\<close>

fun backPropLayers :: "Network \<Rightarrow> nat \<Rightarrow> heap \<Rightarrow> heap" where
  "backPropLayers network 0 h = h"
| "backPropLayers network (Suc k) h =
     (let layerIdx = Suc k;
          currentLayer = network ! layerIdx;
          h1 = forEach currentLayer (\<lambda>node s. setNode node backPropNode s) h;
          h2 = forEach currentLayer (\<lambda>node s.
                 forEach (inputLinks (nodeAt s node)) (\<lambda>link s'.
                   if isDead (linkAt s' link) then s'
                   else setLink link (backPropLink (inputDer (nodeAt s' node))
                          (output (nodeAt s' (source (linkAt s' link))))) s') s) h1
      in if layerIdx = 1 then backPropLayers network k h2
         else
           let prevLayer = network ! (layerIdx - 1);
               h3 = forEach prevLayer (\<lambda>node s.
                      let s0 = setNode node (\<lambda>n. n\<lparr>outputDer := 0\<rparr>) s
                      in forEach (outputs (nodeAt s0 node)) (\<lambda>out s'.
                           setNode node (\<lambda>n. n\<lparr>outputDer := outputDer n +
                             weight (linkAt s' out) * inputDer (nodeAt s' (dest (linkAt s' out)))\<rparr>) s')
                         s0) h2
           in backPropLayers network k h3)"

text \<open>
  \<open>backProp\<close> returns the store and the exception thrown, if any:
  \<open>network[network.length - 1][0]\<close> is a TypeError on an empty network, and so is the
  assignment to \<open>outputNode.outputDer\<close> when the last layer is empty.
\<close>

definition backProp :: "Network \<Rightarrow> real \<Rightarrow> ErrorFunction \<Rightarrow> heap \<Rightarrow> heap \<times> error option" where
  "backProp network target errorFunc h =
    (if network = [] then (h, Some TypeError)
     else (case network ! (length network - 1) of
             [] \<Rightarrow> (h, Some TypeError)
           | outputNode # rest \<Rightarrow>
               let h1 = setNode outputNode
                          (\<lambda>n. n\<lparr>outputDer := err_der errorFunc (output n) target\<rparr>) h
               in (backPropLayers network (length network - 1) h1, None)))"

section \<open>Weight update\<close>

text \<open>The bias update of one node with \<open>numAccumulatedDers > 0\<close>.\<close>

definition updateBias :: "real \<Rightarrow> Node \<Rightarrow> Node" where
  "updateBias learningRate n =
     (let n1 = n\<lparr>bias := bias n - learningRate * accInputDer n / real (numAccumulatedDers n)\<rparr>;
          n2 = n1\<lparr>accInputDer := 0\<rparr>
      in n2\<lparr>numAccumulatedDers := 0\<rparr>)"

text \<open>
  The body of the loop over \<open>node.inputLinks\<close> for one link: \<open>regulDer\<close> is computed
  from the weight the link has on entry, before the test of \<open>numAccumulatedDers\<close>.
\<close>

definition updateLink :: "real \<Rightarrow> real \<Rightarrow> Link \<Rightarrow> Link" where
  "updateLink learningRate regularizationRate l =
     (if isDead l then l
      else
        let regulDer = (case regularization l of None \<Rightarrow> 0 | Some r \<Rightarrow> reg_der r (weight l))
        in if linkNumAccumulatedDers l > 0 then
             let l1 = l\<lparr>weight := weight l -
                        (learningRate / real (linkNumAccumulatedDers l)) * accErrorDer l\<rparr>;
                 newLinkWeight = weight l1 - (learningRate * regularizationRate) * regulDer;
                 l2 = (if regularization l1 = Some L1 \<and> weight l1 * newLinkWeight < 0
                       then l1\<lparr>weight := 0, isDead := True\<rparr>
                       else l1\<lparr>weight := newLinkWeight\<rparr>);
                 l3 = l2\<lparr>accErrorDer := 0\<rparr>
             in l3\<lparr>linkNumAccumulatedDers := 0\<rparr>
           else l)"

text \<open>The body of the loop over the nodes of one layer in \<open>updateWeights\<close>.\<close>

definition updateStep :: "real \<Rightarrow> real \<Rightarrow> nat \<Rightarrow> heap \<Rightarrow> heap" where
  "updateStep learningRate regularizationRate node s =
     (let s1 = (if numAccumulatedDers (nodeAt s node) > 0
                then setNode node (updateBias learningRate) s else s)
      in forEach (inputLinks (nodeAt s1 node)) (\<lambda>link s2.
           setLink link (updateLink learningRate regularizationRate) s2) s1)"

definition updateWeights :: "Network \<Rightarrow> real \<Rightarrow> real \<Rightarrow> heap \<Rightarrow> heap" where
  "updateWeights network learningRate regularizationRate h =
     for_loop 1 (length network) (\<lambda>layerIdx s.
       forEach (network ! layerIdx) (updateStep learningRate regularizationRate) s) h"

text \<open>
  What \<open>updateWeights\<close> does to one node of a layer after the first, whatever its
  counter is.
\<close>

definition updateNode :: "real \<Rightarrow> Node \<Rightarrow> Node" where
  "updateNode learningRate n =
     (if numAccumulatedDers n > 0 then updateBias learningRate n else n)"

section \<open>Configuration from the URL hash\<close>

text \<open>
  \<open>s.split(c)\<close> for a separator of one character: the first piece and the pieces after
  it (the result of \<open>split\<close> is never empty).
\<close>

fun split :: "char \<Rightarrow> string \<Rightarrow> string \<times> string list" where
  "split c [] = ([], [])"
| "split c (x # xs) =
     (let r = split c xs
      in if x = c then ([], fst r # snd r) else (x # fst r, snd r))"

text \<open>
  The characters that \<open>String.prototype.trim\<close> removes, among the code units below 256:
  tab, line feed, vertical tab, form feed, carriage return, space, no-break space.
\<close>

definition isWhiteSpace :: "char \<Rightarrow> bool" where
  "isWhiteSpace c \<longleftrightarrow> c \<in> {CHR 0x09, CHR 0x0A, CHR 0x0B, CHR 0x0C, CHR 0x0D, CHR 0x20, CHR 0xA0}"

definition trim :: "string \<Rightarrow> string" where
  "trim s = rev (dropWhile isWhiteSpace (rev (dropWhile isWhiteSpace s)))"

text \<open>
  \<open>endsWith\<close>: \<open>s.substr(-suffix.length) === suffix\<close>. A negative start counts from
  the end of the string and stops at its beginning; for an empty suffix the start is
  \<open>-0\<close>, which is 0, and \<open>substr\<close> gives the whole string.
\<close>

definition endsWith :: "string \<Rightarrow> string \<Rightarrow> bool" where
  "endsWith s suffix \<longleftrightarrow>
     (if length suffix = 0 then s else drop (length s - length suffix) s) = suffix"

definition HIDE_STATE_SUFFIX :: string where
  "HIDE_STATE_SUFFIX = ''_hide''"

text \<open>
  The first loop of \<open>State.deserializeState\<close>: the names and values of
  \<open>window.location.hash.slice(1).split("&")\<close>, in order; a value is \<open>None\<close> when it is
  \<open>undefined\<close> (no \<open>=\<close> in the piece).
\<close>

definition keyvalues :: "string \<Rightarrow> (string \<times> string option) list" where
  "keyvalues hash =
     (let pieces = split (CHR ''&'') (drop 1 hash)
      in map (\<lambda>keyvalue.
            let parts = split (CHR ''='') keyvalue
            in (fst parts, case snd parts of [] \<Rightarrow> None | value # others \<Rightarrow> Some value))
          (fst pieces # snd pieces))"

text \<open>The object \<open>map\<close>: a later piece with the same name overwrites an earlier one.\<close>

definition hashMap :: "string \<Rightarrow> (string \<rightharpoonup> string option)" where
  "hashMap hash = fold (\<lambda>(name, value) m. m(name \<mapsto> value)) (keyvalues hash) Map.empty"

text \<open>
  \<open>hasKey\<close>: \<open>name in map && map[name] != null && map[name].trim() !== ""\<close>. The
  names it is called with are those of \<open>State.PROPS\<close>, none of which \<open>map\<close> inherits
  from \<open>Object.prototype\<close>.
\<close>

definition hasKey :: "(string \<rightharpoonup> string option) \<Rightarrow> string \<Rightarrow> bool" where
  "hasKey m name =
     (case m name of
        None \<Rightarrow> False
      | Some None \<Rightarrow> False
      | Some (Some value) \<Rightarrow> trim value \<noteq> [])"

text \<open>
  The exceptions of \<open>State.deserializeState\<close>: \<open>NoKeyMap\<close> is the \<open>Error\<close> thrown for
  a property of type \<open>Type.OBJECT\<close> without a key map, \<open>UndefinedValue\<close> the TypeError
  of \<open>value.trim()\<close> in \<open>parseArray\<close> when \<open>value\<close> is \<open>undefined\<close>.
\<close>

datatype exception = NoKeyMap | UndefinedValue

text \<open>\<open>parseArray\<close>: \<open>value.trim() === "" ? [] : value.split(",")\<close>.\<close>

definition parseArray :: "string option \<Rightarrow> exception + string list" where
  "parseArray value =
     (case value of
        None \<Rightarrow> Inl UndefinedValue
      | Some v \<Rightarrow>
          Inr (if trim v = [] then []
               else let pieces = split (CHR '','') v in fst pieces # snd pieces))"

text \<open>
  The enum \<open>Type\<close> and the interface \<open>Property\<close>, whose fields \<open>name\<close> and \<open>type\<close>
  are \<open>prop_name\<close> and \<open>prop_type\<close> here; \<open>keyMap\<close> holds the keys of the property's
  key map, and is \<open>None\<close> when the property has no key map. The five key maps of the
  module are given by their keys.
\<close>

datatype Type = STRING | NUMBER | ARRAY_NUMBER | ARRAY_STRING | BOOLEAN | OBJECT

record Property =
  prop_name :: string
  prop_type :: Type
  keyMap :: "string list option"

definition activations :: "string list" where
  "activations = [''relu'', ''tanh'', ''sigmoid'', ''linear'']"

definition regularizations :: "string list" where
  "regularizations = [''none'', ''L1'', ''L2'']"

definition datasets :: "string list" where
  "datasets = [''circle'', ''xor'', ''gauss'', ''spiral'']"

definition regDatasets :: "string list" where
  "regDatasets = [''reg-plane'', ''reg-gauss'']"

definition problems :: "string list" where
  "problems = [''classification'', ''regression'']"

definition PROPS :: "Property list" where
  "PROPS =
    [\<lparr>prop_name = ''activation'', prop_type = OBJECT, keyMap = Some activations\<rparr>,
     \<lparr>prop_name = ''regularization'', prop_type = OBJECT, keyMap = Some regularizations\<rparr>,
     \<lparr>prop_name = ''batchSize'', prop_type = NUMBER, keyMap = None\<rparr>,
     \<lparr>prop_name = ''dataset'', prop_type = OBJECT, keyMap = Some datasets\<rparr>,
     \<lparr>prop_name = ''regDataset'', prop_type = OBJECT, keyMap = Some regDatasets\<rparr>,
     \<lparr>prop_name = ''learningRate'', prop_type = NUMBER, keyMap = None\<rparr>,
     \<lparr>prop_name = ''regularizationRate'', prop_type = NUMBER, keyMap = None\<rparr>,
     \<lparr>prop_name = ''noise'', prop_type = NUMBER, keyMap = None\<rparr>,
     \<lparr>prop_name = ''networkShape'', prop_type = ARRAY_NUMBER, keyMap = None\<rparr>,
     \<lparr>prop_name = ''seed'', prop_type = STRING, keyMap = None\<rparr>,
     \<lparr>prop_name = ''showTestData'', prop_type = BOOLEAN, keyMap = None\<rparr>,
     \<lparr>prop_name = ''discretize'', prop_type = BOOLEAN, keyMap = None\<rparr>,
     \<lparr>prop_name = ''percTrainData'', prop_type = NUMBER, keyMap = None\<rparr>,
     \<lparr>prop_name = ''x'', prop_type = BOOLEAN, keyMap = None\<rparr>,
     \<lparr>prop_name = ''y'', prop_type = BOOLEAN, keyMap = None\<rparr>,
     \<lparr>prop_name = ''xTimesY'', prop_type = BOOLEAN, keyMap = None\<rparr>,
     \<lparr>prop_name = ''xSquared'', prop_type = BOOLEAN, keyMap = None\<rparr>,
     \<lparr>prop_name = ''ySquared'', prop_type = BOOLEAN, keyMap = None\<rparr>,
     \<lparr>prop_name = ''cosX'', prop_type = BOOLEAN, keyMap = None\<rparr>,
     \<lparr>prop_name = ''sinX'', prop_type = BOOLEAN, keyMap = None\<rparr>,
     \<lparr>prop_name = ''cosY'', prop_type = BOOLEAN, keyMap = None\<rparr>,
     \<lparr>prop_name = ''sinY'', prop_type = BOOLEAN, keyMap = None\<rparr>,
     \<lparr>prop_name = ''collectStats'', prop_type = BOOLEAN, keyMap = None\<rparr>,
     \<lparr>prop_name = ''tutorial'', prop_type = STRING, keyMap = None\<rparr>,
     \<lparr>prop_name = ''problem'', prop_type = OBJECT, keyMap = Some problems\<rparr>,
     \<lparr>prop_name = ''initZero'', prop_type = BOOLEAN, keyMap = None\<rparr>,
     \<lparr>prop_name = ''hideText'', prop_type = BOOLEAN, keyMap = None\<rparr>]"

text \<open>The names of the properties of type \<open>Type.BOOLEAN\<close>, in the order of \<open>State.PROPS\<close>.\<close>

definition booleanProps :: "string list" where
  "booleanProps = map prop_name (filter (\<lambda>p. prop_type p = BOOLEAN) PROPS)"

text \<open>
  The state object, restricted to its properties that hold a boolean: \<open>defaults\<close> is
  \<open>new State()\<close>, where the fourteen boolean properties have their initial values.
\<close>

definition defaults :: "string \<rightharpoonup> bool" where
  "defaults = [''showTestData'' \<mapsto> False, ''discretize'' \<mapsto> False, ''x'' \<mapsto> True, ''y'' \<mapsto> True,
     ''xTimesY'' \<mapsto> False, ''xSquared'' \<mapsto> False, ''ySquared'' \<mapsto> False, ''cosX'' \<mapsto> False,
     ''sinX'' \<mapsto> False, ''cosY'' \<mapsto> False, ''sinY'' \<mapsto> False, ''collectStats'' \<mapsto> False,
     ''initZero'' \<mapsto> False, ''hideText'' \<mapsto> False]"

text \<open>
  The body of the loop over \<open>State.PROPS\<close> for one property: the \<open>switch\<close> on its type.
  The cases \<open>OBJECT\<close>, \<open>NUMBER\<close> and \<open>STRING\<close> assign to a property that holds no boolean
  and throw nothing once the key map is there (\<open>hasKey\<close>, \<open>in\<close> and unary \<open>+\<close> never
  throw), so they leave the booleans of the state as they are. The two array cases test
  \<open>name in map\<close> only, and \<open>parseArray\<close> throws when the value is \<open>undefined\<close>; the array
  they assign is not a boolean either. The six constructors are all the values of the
  enum, so the \<open>default\<close> case is never taken.
\<close>

definition deserializeProp ::
  "(string \<rightharpoonup> string option) \<Rightarrow> Property \<Rightarrow> (string \<rightharpoonup> bool) \<Rightarrow> exception + (string \<rightharpoonup> bool)" where
  "deserializeProp m p state =
     (let name = prop_name p in
      case prop_type p of
        OBJECT \<Rightarrow> (case keyMap p of None \<Rightarrow> Inl NoKeyMap | Some keys \<Rightarrow> Inr state)
      | NUMBER \<Rightarrow> Inr state
      | STRING \<Rightarrow> Inr state
      | BOOLEAN \<Rightarrow>
          Inr (if hasKey m name
               then state(name \<mapsto> (if m name = Some (Some ''false'') then False else True))
               else state)
      | ARRAY_NUMBER \<Rightarrow>
          (case m name of
             None \<Rightarrow> Inr state
           | Some value \<Rightarrow> (case parseArray value of Inl e \<Rightarrow> Inl e | Inr array \<Rightarrow> Inr state))
      | ARRAY_STRING \<Rightarrow>
          (case m name of
             None \<Rightarrow> Inr state
           | Some value \<Rightarrow> (case parseArray value of Inl e \<Rightarrow> Inl e | Inr array \<Rightarrow> Inr state)))"

text \<open>\<open>props.forEach(...)\<close>: the properties in order, up to the first exception.\<close>

fun deserializeProps ::
  "(string \<rightharpoonup> string option) \<Rightarrow> Property list \<Rightarrow> (string \<rightharpoonup> bool) \<Rightarrow> exception + (string \<rightharpoonup> bool)" where
  "deserializeProps m [] state = Inr state"
| "deserializeProps m (p # ps) state =
     (case deserializeProp m p state of
        Inl e \<Rightarrow> Inl e
      | Inr state' \<Rightarrow> deserializeProps m ps state')"

text \<open>
  \<open>State.deserializeState\<close> on the hash of the location: the exception thrown, or the
  booleans of the state returned. After the loop over \<open>State.PROPS\<close> comes the loop over
  \<open>getHideProps(map)\<close>, which assigns \<open>map[prop] === "true"\<close> to every property whose
  name is a key of \<open>map\<close> ending in \<open>_hide\<close> (a name that occurs twice in the hash gets
  the same assignment twice). The statements after it read \<open>networkShape\<close>, which is an
  array by then, assign \<open>numHiddenLayers\<close> and \<open>seed\<close>, no boolean, and seed the
  random number generator, which is no part of the state.
\<close>

definition deserializeState :: "string \<Rightarrow> exception + (string \<rightharpoonup> bool)" where
  "deserializeState hash =
     (let m = hashMap hash
      in case deserializeProps m PROPS defaults of
           Inl e \<Rightarrow> Inl e
         | Inr state1 \<Rightarrow>
             let hideProps = filter (\<lambda>prop. endsWith prop HIDE_STATE_SUFFIX) (map fst (keyvalues hash))
             in Inr (fold (\<lambda>prop state. state(prop \<mapsto> (if m prop = Some (Some ''true'') then True else False)))
                       hideProps state1))"

section \<open>The operations as the specification words them\<close>

text \<open>
  Forward pass of one node: \<open>totalInput = bias + \<Sigma>(link.weight * link.source.output)\<close>
  over all incoming links, \<open>output = activation.value(totalInput)\<close>; every value on
  the right is read in the store before the node is written.
\<close>

definition forward_spec_node :: "nat \<Rightarrow> heap \<Rightarrow> heap" where
  "forward_spec_node a h =
     (let n = nodeAt h a;
          t = bias n + (\<Sum>l\<leftarrow>inputLinks n. weight (linkAt h l) * output (nodeAt h (source (linkAt h l))))
      in setNode a (\<lambda>n. n\<lparr>totalInput := t, output := act_output (activation n) t\<rparr>) h)"

text \<open>
  Forward pass: each input node's output is the corresponding input value, then the
  layers after the first in index order, each node in turn; the result is the output of
  the first node of the last layer.
\<close>

definition forward_spec :: "Network \<Rightarrow> real list \<Rightarrow> heap \<Rightarrow> heap \<times> real" where
  "forward_spec network inputs h =
     (let h1 = fold (\<lambda>(a, x). setNode a (\<lambda>n. n\<lparr>output := x\<rparr>)) (zip (hd network) inputs) h;
          h2 = fold (\<lambda>layer. fold forward_spec_node layer) (tl network) h1
      in (h2, output (nodeAt h2 (hd (last network)))))"

text \<open>
  Backward pass, step 1 for one node: \<open>inputDer = outputDer * activation.derivative(totalInput)\<close>,
  added into \<open>accInputDer\<close>, and \<open>numAccumulatedDers\<close> incremented.
\<close>

definition backward_spec_node :: "nat \<Rightarrow> heap \<Rightarrow> heap" where
  "backward_spec_node a h =
     setNode a (\<lambda>n. let d = outputDer n * act_der (activation n) (totalInput n)
                    in n\<lparr>inputDer := d, accInputDer := accInputDer n + d,
                         numAccumulatedDers := Suc (numAccumulatedDers n)\<rparr>) h"

text \<open>
  Step 2 for one node: for every incoming link that is not dead,
  \<open>errorDer = inputDer * source.output\<close>, added into \<open>accErrorDer\<close>, and the link's
  counter incremented; the dead links are filtered out.
\<close>

definition backward_spec_links :: "nat \<Rightarrow> heap \<Rightarrow> heap" where
  "backward_spec_links a h =
     fold (\<lambda>l. setLink l (\<lambda>k. let e = inputDer (nodeAt h a) * output (nodeAt h (source k))
                               in k\<lparr>errorDer := e, accErrorDer := accErrorDer k + e,
                                    linkNumAccumulatedDers := Suc (linkNumAccumulatedDers k)\<rparr>))
       (filter (\<lambda>l. \<not> isDead (linkAt h l)) (inputLinks (nodeAt h a))) h"

text \<open>
  Step 3 for one node of the previous layer: \<open>outputDer\<close> is the sum over the node's
  outgoing links of \<open>weight * dest.inputDer\<close>.
\<close>

definition backward_spec_prev :: "nat \<Rightarrow> heap \<Rightarrow> heap" where
  "backward_spec_prev a h =
     setNode a (\<lambda>n. n\<lparr>outputDer :=
        (\<Sum>l\<leftarrow>outputs n. weight (linkAt h l) * inputDer (nodeAt h (dest (linkAt h l))))\<rparr>) h"

definition backward_spec_layer :: "Network \<Rightarrow> nat \<Rightarrow> heap \<Rightarrow> heap" where
  "backward_spec_layer network layerIdx h =
     (let h1 = fold backward_spec_node (network ! layerIdx) h;
          h2 = fold backward_spec_links (network ! layerIdx) h1
      in if layerIdx = 1 then h2 else fold backward_spec_prev (network ! (layerIdx - 1)) h2)"

text \<open>
  Backward pass: the output node's \<open>outputDer\<close> is \<open>errorFn.derivative(output, target)\<close>,
  then the layers from the last down to layer 1.
\<close>

definition backward_spec :: "Network \<Rightarrow> real \<Rightarrow> ErrorFunction \<Rightarrow> heap \<Rightarrow> heap" where
  "backward_spec network target errorFunc h =
     (let h0 = setNode (hd (last network))
                 (\<lambda>n. n\<lparr>outputDer := err_der errorFunc (output n) target\<rparr>) h
      in fold (backward_spec_layer network) (rev [1..<length network]) h0)"

text \<open>
  The update of one link that is not dead and has \<open>numAccumulatedDers > 0\<close>, in the
  order the specification gives: the gradient step, then \<open>regDer\<close> from the weight
  after that step, then the candidate weight and the pruning decision.
\<close>

definition update_link_spec :: "real \<Rightarrow> real \<Rightarrow> Link \<Rightarrow> Link" where
  "update_link_spec learningRate regularizationRate l =
     (let l1 = l\<lparr>weight := weight l -
                 (learningRate / real (linkNumAccumulatedDers l)) * accErrorDer l\<rparr>;
          regDer = (case regularization l1 of None \<Rightarrow> 0 | Some r \<Rightarrow> reg_der r (weight l1));
          newWeight = weight l1 - learningRate * regularizationRate * regDer;
          l2 = (if regularization l1 = Some L1 \<and> weight l1 * newWeight < 0
                then l1\<lparr>weight := 0, isDead := True\<rparr>
                else l1\<lparr>weight := newWeight\<rparr>)
      in l2\<lparr>accErrorDer := 0, linkNumAccumulatedDers := 0\<rparr>)"

section \<open>Invariants of the builder\<close>

text \<open>One round of the loop of \<open>linkPrevLayer\<close>.\<close>

definition linkStep ::
  "nat \<Rightarrow> RegularizationFunction option \<Rightarrow> bool \<Rightarrow> (nat \<Rightarrow> real) \<Rightarrow> nat \<Rightarrow> heap \<Rightarrow> heap" where
  "linkStep node reg initZero rnd prevNode s =
     setNode node (\<lambda>n. n\<lparr>inputLinks := inputLinks n @ [nextLink s]\<rparr>)
       (setNode prevNode (\<lambda>n. n\<lparr>outputs := outputs n @ [nextLink s]\<rparr>)
          (newLink prevNode node reg initZero (rnd (nextLink s)) s))"

text \<open>
  The store and the network are wired densely: the nodes of the network are the nodes
  created, in order of creation; the incoming links of the nodes, in that order, are the
  links created; the sources of a node's incoming links are the nodes of the layer before
  its own, in their order (none for the first layer), and their destination is the node.
\<close>

definition wired :: "heap \<Rightarrow> Network \<Rightarrow> bool" where
  "wired h net \<longleftrightarrow>
     concat net = [0..<nextNode h]
     \<and> concat (map (\<lambda>a. inputLinks (nodeAt h a)) (concat net)) = [0..<nextLink h]
     \<and> (\<forall>i<length net. \<forall>a\<in>set (net ! i).
           map (\<lambda>l. source (linkAt h l)) (inputLinks (nodeAt h a))
             = (if i = 0 then [] else net ! (i - 1))
           \<and> (\<forall>l\<in>set (inputLinks (nodeAt h a)). dest (linkAt h l) = a))"

text \<open>
  Every node of the network has the activation that \<open>buildNetwork\<close> gives its layer.
\<close>

definition activated :: "nat \<Rightarrow> ActivationFunction \<Rightarrow> ActivationFunction \<Rightarrow> heap \<Rightarrow> Network \<Rightarrow> bool" where
  "activated numLayers act oact h net \<longleftrightarrow>
     (\<forall>i<length net. \<forall>a\<in>set (net ! i).
        activation (nodeAt h a) = (if i = numLayers - 1 then oact else act))"

text \<open>Every bias and every weight of the store is 0.\<close>

definition zeroed :: "heap \<Rightarrow> bool" where
  "zeroed h \<longleftrightarrow> (\<forall>a. bias (nodeAt h a) = 0) \<and> (\<forall>l. weight (linkAt h l) = 0)"

text \<open>What the loops of \<open>buildNetwork\<close> maintain.\<close>

definition building ::
  "nat \<Rightarrow> ActivationFunction \<Rightarrow> ActivationFunction \<Rightarrow> bool \<Rightarrow> build \<Rightarrow> bool" where
  "building numLayers act oact z s \<longleftrightarrow>
     wired (b_heap s) (b_network s) \<and> activated numLayers act oact (b_heap s) (b_network s)
     \<and> (z \<longrightarrow> zeroed (b_heap s))"

section \<open>Calls on a store\<close>





text \<open>
  Between two stores, node \<open>n\<close> was visited \<open>c\<close> times by step 1 of the backward
  pass: the counter grew by \<open>c\<close>, and after a single visit the accumulator grew by the
  node's \<open>inputDer\<close>.
\<close>

definition nodeAcc :: "nat \<Rightarrow> heap \<Rightarrow> nat \<Rightarrow> heap \<Rightarrow> bool" where
  "nodeAcc n h c s \<longleftrightarrow>
     numAccumulatedDers (nodeAt s n) = numAccumulatedDers (nodeAt h n) + c
     \<and> (c = 0 \<longrightarrow> accInputDer (nodeAt s n) = accInputDer (nodeAt h n))
     \<and> (c = 1 \<longrightarrow> accInputDer (nodeAt s n) = accInputDer (nodeAt h n) + inputDer (nodeAt s n))"



section \<open>Example stores\<close>

text \<open>
  A store with two nodes and one link: node 0 is the input node, node 1 the output node,
  and the given link object is link 0, the only member of node 0's \<open>outputs\<close> and of
  node 1's \<open>inputLinks\<close>. Its network is \<open>[[0], [1]]\<close>.
\<close>

definition oneLinkHeap :: "Link \<Rightarrow> heap" where
  "oneLinkHeap l =
     \<lparr> nodeAt = (\<lambda>a. blankNode)(0 := blankNode\<lparr>outputs := [0]\<rparr>,
                                    1 := blankNode\<lparr>inputLinks := [0]\<rparr>),
       linkAt = (\<lambda>a. blankLink)(0 := l), nextNode = 2, nextLink = 1 \<rparr>"

definition l2Link :: Link where
  "l2Link = blankLink\<lparr>source := 0, dest := 1, weight := 1, accErrorDer := 4,
              linkNumAccumulatedDers := 1, regularization := Some L2\<rparr>"


text \<open>
  The store above with an output node that has accumulated two derivatives (bias 1,
  \<open>accInputDer = 3\<close>, counter 2), and with one that has accumulated none since the last
  update (bias 1, \<open>accInputDer = 3\<close>, counter 0).
\<close>

definition accumulatedHeap :: heap where
  "accumulatedHeap =
     setNode 1 (\<lambda>n. n\<lparr>bias := 1, accInputDer := 3, numAccumulatedDers := 2\<rparr>) (oneLinkHeap l2Link)"

definition idleHeap :: heap where
  "idleHeap = setNode 1 (\<lambda>n. n\<lparr>bias := 1, accInputDer := 3\<rparr>) (oneLinkHeap l2Link)"

text \<open>The network of shape \<open>[2, 1]\<close> with random weights all drawn as 0.\<close>

definition smallNetwork :: "heap \<times> Network" where
  "smallNetwork = buildNetwork [2, 1] SIGMOID LINEAR None [''x'', ''y''] False (\<lambda>k. 0) 0"

section \<open>Loops as folds\<close>

lemma for_loop_fold: "for_loop i hi body s = fold body [i..<hi] s"
proof (induction i hi body s rule: for_loop.induct)
  case (1 i hi body s)
  show ?case
  proof (cases "i < hi")
    case True
    with 1 show ?thesis
      by (subst for_loop.simps) (simp add: upt_rec [of i hi])
  next
    case False
    then show ?thesis
      by (subst for_loop.simps) simp
  qed
qed

lemma forEach_fold: "forEach xs body s = fold body xs s"
proof -
  have "fold (\<lambda>i. body (xs ! i)) [0..<length xs] s = fold body (map (\<lambda>i. xs ! i) [0..<length xs]) s"
    by (simp add: fold_map comp_def)
  then show ?thesis
    by (simp add: forEach_def for_loop_fold map_nth)
qed

lemma fold_concat: "fold f (concat xss) s = fold (fold f) xss s"
  by (induction xss arbitrary: s) simp_all

lemma layers_fold:
  "for_loop (Suc 0) (length network) (\<lambda>layerIdx. F (network ! layerIdx)) h = fold F (tl network) h"
proof -
  have "map (\<lambda>i. network ! i) [Suc 0..<length network] = tl network"
    by (rule nth_equalityI) (simp_all add: nth_tl)
  moreover have "fold (\<lambda>i. F (network ! i)) [Suc 0..<length network] h =
      fold F (map (\<lambda>i. network ! i) [Suc 0..<length network]) h"
    by (simp add: fold_map comp_def)
  ultimately show ?thesis
    by (simp add: for_loop_fold)
qed

lemma fold_frame:
  assumes "\<And>x s. x \<in> set xs \<Longrightarrow> Q (f x s) = Q s"
  shows "Q (fold f xs s) = Q s"
  using assms by (induction xs arbitrary: s) simp_all

section \<open>Reading the store after a write\<close>

lemma nodeAt_setNode: "nodeAt (setNode a f h) x = (if x = a then f (nodeAt h a) else nodeAt h x)"
  by (simp add: setNode_def)

lemma linkAt_setNode [simp]: "linkAt (setNode a f h) = linkAt h"
  by (simp add: setNode_def)

lemma nextNode_setNode [simp]: "nextNode (setNode a f h) = nextNode h"
  by (simp add: setNode_def)

lemma nextLink_setNode [simp]: "nextLink (setNode a f h) = nextLink h"
  by (simp add: setNode_def)

lemma linkAt_setLink: "linkAt (setLink a f h) x = (if x = a then f (linkAt h a) else linkAt h x)"
  by (simp add: setLink_def)

lemma nodeAt_setLink [simp]: "nodeAt (setLink a f h) = nodeAt h"
  by (simp add: setLink_def)

lemma nextNode_setLink [simp]: "nextNode (setLink a f h) = nextNode h"
  by (simp add: setLink_def)

lemma nextLink_setLink [simp]: "nextLink (setLink a f h) = nextLink h"
  by (simp add: setLink_def)

lemma setNode_setNode: "setNode a f (setNode a g h) = setNode a (\<lambda>n. f (g n)) h"
  by (simp add: setNode_def)

lemma setNode_cong: "f (nodeAt h a) = g (nodeAt h a) \<Longrightarrow> setNode a f h = setNode a g h"
  by (simp add: setNode_def)

lemma setLink_cong: "f (linkAt h a) = g (linkAt h a) \<Longrightarrow> setLink a f h = setLink a g h"
  by (simp add: setLink_def)

text \<open>A write that leaves a field of the object alone leaves it alone in the store.\<close>

lemma node_frame:
  "(\<And>n. P (f n) = P n) \<Longrightarrow> P (nodeAt (setNode a f h) x) = P (nodeAt h x)"
  by (simp add: setNode_def)

lemma link_frame:
  "(\<And>n. P (f n) = P n) \<Longrightarrow> P (linkAt (setLink a f h) x) = P (linkAt h x)"
  by (simp add: setLink_def)

section \<open>The forward pass computes the sums of the specification\<close>

lemma totalInput_fold:
  "fold (\<lambda>link s. setNode this (\<lambda>n. n\<lparr>totalInput := totalInput n +
       weight (linkAt s link) * output (nodeAt s (source (linkAt s link)))\<rparr>) s) ls s0
   = setNode this (\<lambda>n. n\<lparr>totalInput := totalInput n +
       (\<Sum>l\<leftarrow>ls. weight (linkAt s0 l) * output (nodeAt s0 (source (linkAt s0 l))))\<rparr>) s0"
proof (induction ls arbitrary: s0)
  case Nil
  then show ?case by (simp add: setNode_def)
next
  case (Cons l ls)
  let ?s1 = "setNode this (\<lambda>n. n\<lparr>totalInput := totalInput n +
       weight (linkAt s0 l) * output (nodeAt s0 (source (linkAt s0 l)))\<rparr>) s0"
  have out: "output (nodeAt ?s1 x) = output (nodeAt s0 x)" for x
    by (rule node_frame) simp
  show ?case
    by (simp add: Cons.IH out setNode_setNode add.assoc)
qed

lemma updateOutput_spec: "updateOutput this h = forward_spec_node this h"
proof -
  let ?h1 = "setNode this (\<lambda>n. n\<lparr>totalInput := bias n\<rparr>) h"
  have out: "output (nodeAt ?h1 x) = output (nodeAt h x)" for x
    by (rule node_frame) simp
  have il: "inputLinks (nodeAt ?h1 x) = inputLinks (nodeAt h x)" for x
    by (rule node_frame) simp
  show ?thesis
    unfolding updateOutput_def forward_spec_node_def Let_def forEach_fold totalInput_fold
    by (simp add: out il setNode_setNode, rule setNode_cong, simp)
qed

lemma inputs_fold:
  assumes "length inputs = length inputLayer"
  shows "for_loop 0 (length inputLayer) (\<lambda>i s.
           setNode (inputLayer ! i) (\<lambda>n. n\<lparr>output := inputs ! i\<rparr>) s) h
       = fold (\<lambda>(a, x). setNode a (\<lambda>n. n\<lparr>output := x\<rparr>)) (zip inputLayer inputs) h"
proof -
  have "zip inputLayer inputs = map (\<lambda>i. (inputLayer ! i, inputs ! i)) [0..<length inputLayer]"
    using assms by (intro nth_equalityI) simp_all
  then show ?thesis
    by (simp add: for_loop_fold fold_map comp_def)
qed

lemma forwardProp_runs:
  assumes "network \<noteq> []" and "length inputs = length (hd network)" and "last network \<noteq> []"
  shows "forwardProp network inputs h =
           (fst (forward_spec network inputs h), Inr (snd (forward_spec network inputs h)))"
proof -
  have hd0: "network ! 0 = hd network"
    using assms(1) by (simp add: hd_conv_nth)
  have lst: "network ! (length network - 1) = last network"
    using assms(1) by (simp add: last_conv_nth)
  obtain node rest where nr: "last network = node # rest"
    using assms(3) by (cases "last network") auto
  have upd: "(\<lambda>layerIdx s. forEach (network ! layerIdx) updateOutput s)
           = (\<lambda>layerIdx. fold forward_spec_node (network ! layerIdx))"
    by (intro ext) (simp add: forEach_fold updateOutput_spec [abs_def])
  show ?thesis
    unfolding forwardProp_def forward_spec_def Let_def hd0 lst upd
    using assms(1,2) layers_fold [of network "fold forward_spec_node"]
    by (simp add: inputs_fold nr)
qed

section \<open>The backward pass computes the steps of the specification\<close>

lemma backPropNode_spec: "setNode a backPropNode h = backward_spec_node a h"
  unfolding backward_spec_node_def
  by (rule setNode_cong) (simp add: backPropNode_def Let_def)

lemma links_fold:
  assumes "nodeAt s = nodeAt h"
    and "\<And>l. isDead (linkAt s l) = isDead (linkAt h l)"
  shows "fold (\<lambda>link s'. if isDead (linkAt s' link) then s'
            else setLink link (backPropLink (inputDer (nodeAt s' a))
                   (output (nodeAt s' (source (linkAt s' link))))) s') ls s
       = fold (\<lambda>l. setLink l (\<lambda>k. let e = inputDer (nodeAt h a) * output (nodeAt h (source k))
                               in k\<lparr>errorDer := e, accErrorDer := accErrorDer k + e,
                                    linkNumAccumulatedDers := Suc (linkNumAccumulatedDers k)\<rparr>))
           (filter (\<lambda>l. \<not> isDead (linkAt h l)) ls) s"
  using assms
proof (induction ls arbitrary: s)
  case Nil
  then show ?case by simp
next
  case (Cons l ls)
  show ?case
  proof (cases "isDead (linkAt h l)")
    case True
    with Cons show ?thesis by simp
  next
    case False
    let ?f = "backPropLink (inputDer (nodeAt s a)) (output (nodeAt s (source (linkAt s l))))"
    let ?g = "\<lambda>k. let e = inputDer (nodeAt h a) * output (nodeAt h (source k))
                 in k\<lparr>errorDer := e, accErrorDer := accErrorDer k + e,
                      linkNumAccumulatedDers := Suc (linkNumAccumulatedDers k)\<rparr>"
    have eq: "setLink l ?f s = setLink l ?g s"
      by (rule setLink_cong) (simp add: backPropLink_def Let_def Cons.prems(1))
    have dead: "isDead (linkAt (setLink l ?g s) x) = isDead (linkAt h x)" for x
      using Cons.prems(2) by (auto simp: linkAt_setLink Let_def)
    have "fold (\<lambda>link s'. if isDead (linkAt s' link) then s'
            else setLink link (backPropLink (inputDer (nodeAt s' a))
                   (output (nodeAt s' (source (linkAt s' link))))) s') ls (setLink l ?g s)
       = fold (\<lambda>l. setLink l ?g) (filter (\<lambda>l. \<not> isDead (linkAt h l)) ls) (setLink l ?g s)"
      by (rule Cons.IH) (simp_all add: Cons.prems(1) dead)
    with False Cons.prems(2) [of l] eq show ?thesis
      by simp
  qed
qed

lemma backPropLinks_spec:
  "fold (\<lambda>link s'.
       if isDead (linkAt s' link) then s'
       else setLink link (backPropLink (inputDer (nodeAt s' node))
              (output (nodeAt s' (source (linkAt s' link))))) s') (inputLinks (nodeAt s node)) s
   = backward_spec_links node s"
  unfolding backward_spec_links_def
  by (rule links_fold) simp_all

lemma outputDer_fold:
  "fold (\<lambda>out s'. setNode node (\<lambda>n. n\<lparr>outputDer := outputDer n +
       weight (linkAt s' out) * inputDer (nodeAt s' (dest (linkAt s' out)))\<rparr>) s') ls s0
   = setNode node (\<lambda>n. n\<lparr>outputDer := outputDer n +
       (\<Sum>l\<leftarrow>ls. weight (linkAt s0 l) * inputDer (nodeAt s0 (dest (linkAt s0 l))))\<rparr>) s0"
proof (induction ls arbitrary: s0)
  case Nil
  then show ?case by (simp add: setNode_def)
next
  case (Cons l ls)
  let ?s1 = "setNode node (\<lambda>n. n\<lparr>outputDer := outputDer n +
       weight (linkAt s0 l) * inputDer (nodeAt s0 (dest (linkAt s0 l)))\<rparr>) s0"
  have fr: "inputDer (nodeAt ?s1 x) = inputDer (nodeAt s0 x)" for x
    by (rule node_frame) simp
  show ?case
    by (simp add: Cons.IH fr setNode_setNode add.assoc)
qed

lemma backPropPrev_spec:
  "fold (\<lambda>out s'.
         setNode node (\<lambda>n. n\<lparr>outputDer := outputDer n +
           weight (linkAt s' out) * inputDer (nodeAt s' (dest (linkAt s' out)))\<rparr>) s')
      (outputs (nodeAt (setNode node (\<lambda>n. n\<lparr>outputDer := 0\<rparr>) s) node))
      (setNode node (\<lambda>n. n\<lparr>outputDer := 0\<rparr>) s)
   = backward_spec_prev node s"
proof -
  let ?s0 = "setNode node (\<lambda>n. n\<lparr>outputDer := 0\<rparr>) s"
  have fr: "inputDer (nodeAt ?s0 x) = inputDer (nodeAt s x)" for x
    by (rule node_frame) simp
  have ou: "outputs (nodeAt ?s0 x) = outputs (nodeAt s x)" for x
    by (rule node_frame) simp
  show ?thesis
    unfolding outputDer_fold backward_spec_prev_def
    by (simp add: fr ou setNode_setNode, rule setNode_cong, simp)
qed

lemma backPropLayers_spec:
  "backPropLayers network k h = fold (backward_spec_layer network) (rev [1..<Suc k]) h"
proof (induction k arbitrary: h)
  case 0
  then show ?case by simp
next
  case (Suc k)
  have step: "backPropLayers network (Suc k) h =
      backPropLayers network k (backward_spec_layer network (Suc k) h)"
    by (simp add: Let_def forEach_fold [abs_def] backPropNode_spec [abs_def]
        backPropLinks_spec backPropPrev_spec backward_spec_layer_def)
  show ?case
    unfolding step Suc.IH by simp
qed

lemma backProp_runs:
  assumes "network \<noteq> []" and "last network \<noteq> []"
  shows "backProp network target errorFunc h = (backward_spec network target errorFunc h, None)"
proof -
  have lst: "network ! (length network - 1) = last network"
    using assms(1) by (simp add: last_conv_nth)
  obtain node rest where nr: "last network = node # rest"
    using assms(2) by (cases "last network") auto
  have len: "Suc (length network - 1) = length network"
    using assms(1) by simp
  show ?thesis
    unfolding backProp_def backward_spec_def lst
    using assms(1) by (simp add: nr backPropLayers_spec len Let_def)
qed

section \<open>The weight update, node by node and link by link\<close>

lemma updateNode_idem: "updateNode lr (updateNode lr n) = updateNode lr n"
  by (simp add: updateNode_def updateBias_def)

lemma inputLinks_updateNode [simp]: "inputLinks (updateNode lr n) = inputLinks n"
  by (simp add: updateNode_def updateBias_def)

lemma updateLink_idem: "updateLink lr rr (updateLink lr rr l) = updateLink lr rr l"
  by (simp add: updateLink_def Let_def)

lemma fold_setLink:
  assumes "\<And>l. f (f l) = f l"
  shows "linkAt (fold (\<lambda>a. setLink a f) as h) l = (if l \<in> set as then f (linkAt h l) else linkAt h l)
       \<and> nodeAt (fold (\<lambda>a. setLink a f) as h) = nodeAt h"
  by (induction as arbitrary: h) (auto simp: linkAt_setLink assms)

lemma updateWeights_fold:
  "updateWeights network lr rr h = fold (updateStep lr rr) (concat (tl network)) h"
proof -
  have "updateWeights network lr rr h =
      for_loop 1 (length network) (\<lambda>layerIdx. fold (updateStep lr rr) (network ! layerIdx)) h"
    unfolding updateWeights_def by (simp add: forEach_fold [abs_def])
  then show ?thesis
    using layers_fold [of network "fold (updateStep lr rr)" h] by (simp add: fold_concat)
qed

lemma updateStep_nodeAt:
  "nodeAt (updateStep lr rr a h) x = (if x = a then updateNode lr (nodeAt h a) else nodeAt h x)"
  by (simp add: updateStep_def forEach_fold fold_setLink updateLink_idem nodeAt_setNode updateNode_def)

lemma updateStep_linkAt:
  "linkAt (updateStep lr rr a h) l =
     (if l \<in> set (inputLinks (nodeAt h a)) then updateLink lr rr (linkAt h l) else linkAt h l)"
  by (simp add: updateStep_def forEach_fold fold_setLink updateLink_idem nodeAt_setNode updateBias_def)

lemma fold_updateStep:
  "nodeAt (fold (updateStep lr rr) ns h) x =
      (if x \<in> set ns then updateNode lr (nodeAt h x) else nodeAt h x)
   \<and> linkAt (fold (updateStep lr rr) ns h) l =
      (if l \<in> (\<Union>n\<in>set ns. set (inputLinks (nodeAt h n)))
       then updateLink lr rr (linkAt h l) else linkAt h l)"
proof (induction ns arbitrary: h)
  case Nil
  then show ?case by simp
next
  case (Cons a ns)
  have il: "inputLinks (nodeAt (updateStep lr rr a h) n) = inputLinks (nodeAt h n)" for n
    by (simp add: updateStep_nodeAt)
  show ?case
    using Cons.IH [of "updateStep lr rr a h"]
    by (auto simp: il updateStep_nodeAt updateStep_linkAt updateNode_idem updateLink_idem)
qed

lemma updateWeights_nodeAt:
  "nodeAt (updateWeights network lr rr h) x =
     (if x \<in> set (concat (tl network)) then updateNode lr (nodeAt h x) else nodeAt h x)"
  unfolding updateWeights_fold using fold_updateStep [of lr rr "concat (tl network)" h x]
  by blast

lemma updateWeights_linkAt:
  "linkAt (updateWeights network lr rr h) l =
     (if l \<in> (\<Union>n\<in>set (concat (tl network)). set (inputLinks (nodeAt h n)))
      then updateLink lr rr (linkAt h l) else linkAt h l)"
  unfolding updateWeights_fold using fold_updateStep [of lr rr "concat (tl network)" h _ l]
  by blast

section \<open>Shape validation\<close>

text \<open>
  C5. When the network has an input layer and the number of inputs differs from that
  layer's size, \<open>forwardProp\<close> throws the ShapeMismatch error and the store (every
  field of every node and link) is the one it was called with.
\<close>

theorem forwardProp_shape_mismatch:
  assumes "network \<noteq> []" and "length inputs \<noteq> length (network ! 0)"
  shows "forwardProp network inputs h = (h, Inl ShapeMismatch)"
  using assms by (simp add: forwardProp_def)

theorem forwardProp_shape_mismatch_witness:
  "[[0, 1], [2::nat]] \<noteq> [] \<and> length [1::real] \<noteq> length ([[0, 1], [2::nat]] ! 0)
   \<and> forwardProp [[0, 1], [2]] [1] emptyHeap = (emptyHeap, Inl ShapeMismatch)"
  using forwardProp_shape_mismatch [of "[[0, 1], [2]]" "[1]" emptyHeap] by simp

section \<open>Forward propagation against its specification\<close>

text \<open>
  C3. For a network with an input layer of as many nodes as there are inputs and an
  output node (a first node of the last layer), \<open>forwardProp\<close> leaves the store of the
  specification's forward pass: each input node's output is its input value; then, layer
  by layer after the first and node by node, \<open>totalInput\<close> is the bias plus the sum over
  all incoming links, dead or not, of \<open>weight * source.output\<close>, and \<open>output\<close> is the
  activation of \<open>totalInput\<close>. It returns the output of the first node of the last layer.
\<close>

theorem forwardProp_spec:
  assumes "network \<noteq> []" and "length inputs = length (hd network)" and "last network \<noteq> []"
  shows "forwardProp network inputs h =
           (fst (forward_spec network inputs h), Inr (snd (forward_spec network inputs h)))"
  using assms by (rule forwardProp_runs)

theorem forwardProp_spec_witness:
  "[[0], [1::nat]] \<noteq> [] \<and> length [1::real] = length (hd [[0], [1::nat]]) \<and> last [[0], [1::nat]] \<noteq> []
   \<and> forwardProp [[0], [1]] [1] (oneLinkHeap l2Link) =
       (fst (forward_spec [[0], [1]] [1] (oneLinkHeap l2Link)),
        Inr (snd (forward_spec [[0], [1]] [1] (oneLinkHeap l2Link))))"
  using forwardProp_spec [of "[[0], [1]]" "[1]" "oneLinkHeap l2Link"] by simp

section \<open>Back propagation against its specification\<close>

lemma backward_spec_layer_frame:
  assumes "n \<notin> set (concat (tl network))" and "1 \<le> j" and "j < length network"
  shows "nodeAt (backward_spec_layer network j h) n = nodeAt h n"
proof -
  have mem: "set (network ! i) \<subseteq> set (concat (tl network))" if "1 \<le> i" "i < length network" for i
  proof -
    have "network ! i = tl network ! (i - 1)"
      using that by (simp add: nth_tl)
    moreover have "i - 1 < length (tl network)"
      using that by simp
    ultimately have "network ! i \<in> set (tl network)"
      by (metis nth_mem)
    then show ?thesis by auto
  qed
  have a: "nodeAt (fold backward_spec_node xs s) n = nodeAt s n" if "n \<notin> set xs" for xs s
    using that by (intro fold_frame) (auto simp: backward_spec_node_def nodeAt_setNode)
  have b: "nodeAt (fold backward_spec_links xs s) n = nodeAt s n" for xs s
    by (intro fold_frame) (simp add: backward_spec_links_def fold_frame [where Q = "\<lambda>s. nodeAt s n"])
  have c: "nodeAt (fold backward_spec_prev xs s) n = nodeAt s n" if "n \<notin> set xs" for xs s
    using that by (intro fold_frame) (auto simp: backward_spec_prev_def nodeAt_setNode)
  have cur: "n \<notin> set (network ! j)"
    using mem [of j] assms by auto
  have prev: "n \<notin> set (network ! (j - 1))" if "j \<noteq> 1"
  proof -
    have "1 \<le> j - 1" and "j - 1 < length network"
      using assms(2,3) that by arith+
    then show ?thesis
      using mem [of "j - 1"] assms(1) by blast
  qed
  have "nodeAt (fold backward_spec_links (network ! j) (fold backward_spec_node (network ! j) h)) n
      = nodeAt h n"
    using cur by (simp add: a b)
  moreover have "nodeAt (fold backward_spec_prev (network ! (j - 1))
      (fold backward_spec_links (network ! j) (fold backward_spec_node (network ! j) h))) n
      = nodeAt h n" if "j \<noteq> 1"
    using cur prev [OF that] by (simp add: a b c)
  ultimately show ?thesis
    unfolding backward_spec_layer_def Let_def by (cases "j = 1") simp_all
qed

lemma backward_spec_frame:
  assumes "n \<notin> set (concat (tl network))" and "n \<noteq> hd (last network)"
  shows "nodeAt (backward_spec network target errorFunc h) n = nodeAt h n"
proof -
  have "nodeAt (fold (backward_spec_layer network) (rev [1..<length network]) s) n = nodeAt s n" for s
    using assms(1) by (intro fold_frame backward_spec_layer_frame) auto
  then show ?thesis
    using assms(2) by (simp add: backward_spec_def nodeAt_setNode)
qed

text \<open>
  C1. For a network with an output node, \<open>backProp\<close> leaves the store of the
  specification's backward pass: the output node's \<open>outputDer\<close> is the error derivative
  at its output and the target; then, from the last layer down to layer 1, every node of
  the layer gets \<open>inputDer = outputDer * activation.der(totalInput)\<close>, added into
  \<open>accInputDer\<close>, and its counter incremented; every incoming link that is not dead gets
  \<open>errorDer = inputDer * source.output\<close>, added into \<open>accErrorDer\<close>, and its counter
  incremented (a dead link is not written); and, unless the layer is layer 1, every node
  of the previous layer gets as \<open>outputDer\<close> the sum over its outgoing links of
  \<open>weight * dest.inputDer\<close>. In a network of two layers or more, an input node that is
  in no later layer keeps its \<open>outputDer\<close>.
\<close>

theorem backProp_spec:
  assumes "network \<noteq> []" and "last network \<noteq> []"
  shows "backProp network target errorFunc h = (backward_spec network target errorFunc h, None)
       \<and> (\<forall>n \<in> set (hd network). n \<notin> set (concat (tl network)) \<and> 2 \<le> length network \<longrightarrow>
            outputDer (nodeAt (backward_spec network target errorFunc h) n) = outputDer (nodeAt h n))"
proof -
  have run: "backProp network target errorFunc h = (backward_spec network target errorFunc h, None)"
    using assms by (rule backProp_runs)
  have "hd (last network) \<in> set (concat (tl network))" if "2 \<le> length network"
  proof -
    have "tl network \<noteq> []"
      using that by (cases network) auto
    then have "last network = last (tl network)"
      using assms(1) by (metis last_tl list.sel(2))
    with \<open>tl network \<noteq> []\<close> have "last network \<in> set (tl network)"
      by simp
    with assms(2) show ?thesis
      by (auto intro!: bexI [of _ "last network"])
  qed
  then have "outputDer (nodeAt (backward_spec network target errorFunc h) n) = outputDer (nodeAt h n)"
    if "n \<notin> set (concat (tl network))" "2 \<le> length network" for n
  proof -
    have "n \<noteq> hd (last network)"
      using that \<open>2 \<le> length network \<Longrightarrow> hd (last network) \<in> set (concat (tl network))\<close>
      by blast
    then show ?thesis
      using that(1) by (simp add: backward_spec_frame)
  qed
  with run show ?thesis by blast
qed

theorem backProp_spec_witness:
  "[[0], [1::nat]] \<noteq> [] \<and> last [[0], [1::nat]] \<noteq> []
   \<and> backProp [[0], [1]] 1 SQUARE (oneLinkHeap l2Link) =
        (backward_spec [[0], [1]] 1 SQUARE (oneLinkHeap l2Link), None)
   \<and> outputDer (nodeAt (backward_spec [[0], [1]] 1 SQUARE (oneLinkHeap l2Link)) 0)
        = outputDer (nodeAt (oneLinkHeap l2Link) 0)"
  using backProp_spec [of "[[0], [1]]" 1 SQUARE "oneLinkHeap l2Link"] by simp

section \<open>The bias update\<close>

text \<open>
  C7. \<open>updateWeights\<close> returns a store, never an exception. For every node of a layer
  after the first: if its counter is positive, the bias decreases by
  \<open>learningRate * accInputDer / numAccumulatedDers\<close> and both accumulators are 0
  afterwards; if its counter is 0, the bias and both accumulators are as before.
\<close>

theorem updateWeights_bias:
  assumes "node \<in> set (concat (tl network))"
  shows "let n = nodeAt h node; n' = nodeAt (updateWeights network learningRate regularizationRate h) node
         in if numAccumulatedDers n > 0
            then bias n' = bias n - learningRate * accInputDer n / real (numAccumulatedDers n)
               \<and> accInputDer n' = 0 \<and> numAccumulatedDers n' = 0
            else bias n' = bias n \<and> accInputDer n' = accInputDer n
               \<and> numAccumulatedDers n' = numAccumulatedDers n"
  using assms by (simp add: updateWeights_nodeAt updateNode_def updateBias_def Let_def)

theorem updateWeights_bias_witness:
  "1 \<in> set (concat (tl [[0], [1::nat]]))
   \<and> bias (nodeAt accumulatedHeap 1) = 1 \<and> accInputDer (nodeAt accumulatedHeap 1) = 3
   \<and> numAccumulatedDers (nodeAt accumulatedHeap 1) = 2
   \<and> bias (nodeAt (updateWeights [[0], [1]] (1 / 2) 0 accumulatedHeap) 1) = 1 / 4
   \<and> accInputDer (nodeAt (updateWeights [[0], [1]] (1 / 2) 0 accumulatedHeap) 1) = 0
   \<and> numAccumulatedDers (nodeAt (updateWeights [[0], [1]] (1 / 2) 0 accumulatedHeap) 1) = 0
   \<and> numAccumulatedDers (nodeAt idleHeap 1) = 0
   \<and> bias (nodeAt (updateWeights [[0], [1]] (1 / 2) 0 idleHeap) 1) = 1
   \<and> accInputDer (nodeAt (updateWeights [[0], [1]] (1 / 2) 0 idleHeap) 1) = 3
   \<and> numAccumulatedDers (nodeAt (updateWeights [[0], [1]] (1 / 2) 0 idleHeap) 1) = 0"
  using updateWeights_bias [of 1 "[[0], [1]]" accumulatedHeap "1 / 2" 0]
    updateWeights_bias [of 1 "[[0], [1]]" idleHeap "1 / 2" 0]
  by (simp add: accumulatedHeap_def idleHeap_def nodeAt_setNode oneLinkHeap_def blankNode_def Let_def)

section \<open>The order of the gradient step and the regularization\<close>

text \<open>
  C2, as the code has it. For every link that is not dead, has a positive counter and is
  an incoming link of a node of a layer after the first: \<open>regDer\<close> is the
  regularization's derivative at the weight before the gradient step (0 without a
  regularization); the gradient step \<open>weight - (learningRate / numAccumulatedDers) * accErrorDer\<close>
  comes next; the candidate is the stepped weight minus
  \<open>learningRate * regularizationRate * regDer\<close>; the link is pruned (weight 0, dead)
  exactly when the regularization is L1 and stepped weight times candidate is negative,
  and takes the candidate as its weight otherwise; both accumulators are 0 afterwards.
\<close>

theorem updateWeights_link:
  assumes "node \<in> set (concat (tl network))" and "link \<in> set (inputLinks (nodeAt h node))"
    and "\<not> isDead (linkAt h link)" and "linkNumAccumulatedDers (linkAt h link) > 0"
  shows "let l = linkAt h link;
             l' = linkAt (updateWeights network learningRate regularizationRate h) link;
             regDer = (case regularization l of None \<Rightarrow> 0 | Some r \<Rightarrow> reg_der r (weight l));
             stepped = weight l - (learningRate / real (linkNumAccumulatedDers l)) * accErrorDer l;
             newWeight = stepped - (learningRate * regularizationRate) * regDer;
             pruned = (regularization l = Some L1 \<and> stepped * newWeight < 0)
         in weight l' = (if pruned then 0 else newWeight) \<and> isDead l' = pruned
          \<and> accErrorDer l' = 0 \<and> linkNumAccumulatedDers l' = 0"
proof -
  have "link \<in> (\<Union>n\<in>set (concat (tl network)). set (inputLinks (nodeAt h n)))"
    using assms(1,2) by blast
  then have eq: "linkAt (updateWeights network learningRate regularizationRate h) link
      = updateLink learningRate regularizationRate (linkAt h link)"
    by (simp only: updateWeights_linkAt if_True)
  show ?thesis
    unfolding eq using assms(3,4) by (auto simp: updateLink_def Let_def simp del: reg_der.simps)
qed

theorem updateWeights_link_witness:
  "1 \<in> set (concat (tl [[0], [1::nat]])) \<and> 0 \<in> set (inputLinks (nodeAt (oneLinkHeap l2Link) 1))
   \<and> \<not> isDead (linkAt (oneLinkHeap l2Link) 0)
   \<and> linkNumAccumulatedDers (linkAt (oneLinkHeap l2Link) 0) > 0
   \<and> weight (linkAt (updateWeights [[0], [1]] 1 1 (oneLinkHeap l2Link)) 0) = - 4
   \<and> \<not> isDead (linkAt (updateWeights [[0], [1]] 1 1 (oneLinkHeap l2Link)) 0)"
  using updateWeights_link [where node = 1 and network = "[[0], [1]]" and h = "oneLinkHeap l2Link"
      and link = 0 and learningRate = 1 and regularizationRate = 1]
  by (simp add: oneLinkHeap_def l2Link_def blankLink_def blankNode_def Let_def)

text \<open>
  The claim as the specification words it, with \<open>regDer\<close> taken at the weight after the
  gradient step, fails on an L2 link of weight 1 with \<open>accErrorDer = 4\<close> and counter 1,
  at learning rate 1 and regularization rate 1: the code leaves the weight \<open>- 4\<close>
  (\<open>regDer = 1\<close>), the specification's order gives 0 (\<open>regDer = - 3\<close>).
\<close>

theorem updateWeights_link_counterexample:
  "weight (linkAt (updateWeights [[0], [1]] 1 1 (oneLinkHeap l2Link)) 0) = - 4
   \<and> weight (update_link_spec 1 1 (linkAt (oneLinkHeap l2Link) 0)) = 0"
  by (simp add: updateWeights_linkAt oneLinkHeap_def l2Link_def blankLink_def blankNode_def
      updateLink_def update_link_spec_def Let_def)

section \<open>Pruning is permanent\<close>

lemma fold_inv:
  assumes "P s" and "\<And>x s. x \<in> set xs \<Longrightarrow> P s \<Longrightarrow> P (f x s)"
  shows "P (fold f xs s)"
  using assms by (induction xs arbitrary: s) simp_all












subsection \<open>The term of a link in the forward pass on doubles\<close>


lemma linkAt_setNode_double [simp]: "linkAt_double (setNode_double a f h) = linkAt_double h"
  by (simp add: setNode_double_def)











section \<open>The accumulation contract\<close>







subsection \<open>Nodes\<close>

lemma nodeAcc_neutral:
  assumes "nodeAcc n h c s"
    and "numAccumulatedDers (nodeAt s' n) = numAccumulatedDers (nodeAt s n)"
    and "accInputDer (nodeAt s' n) = accInputDer (nodeAt s n)"
    and "inputDer (nodeAt s' n) = inputDer (nodeAt s n)"
  shows "nodeAcc n h c s'"
  using assms by (simp add: nodeAcc_def)






subsection \<open>Links\<close>








subsection \<open>One example\<close>








subsection \<open>A mini-batch\<close>




section \<open>Boolean properties of the URL state\<close>

lemma booleanProps_list:
  "booleanProps = [''showTestData'', ''discretize'', ''x'', ''y'', ''xTimesY'', ''xSquared'',
     ''ySquared'', ''cosX'', ''sinX'', ''cosY'', ''sinY'', ''collectStats'', ''initZero'',
     ''hideText'']"
  by (simp add: booleanProps_def PROPS_def)

lemma booleanProps_not_hidden: "name \<in> set booleanProps \<Longrightarrow> \<not> endsWith name HIDE_STATE_SUFFIX"
  by (auto simp: booleanProps_list endsWith_def HIDE_STATE_SUFFIX_def)

lemma fold_upd_other:
  assumes "name \<notin> set props"
  shows "fold (\<lambda>prop state. state(prop \<mapsto> v prop)) props s name = s name"
  using assms by (induction props arbitrary: s) simp_all

lemma fold_cond_upd:
  assumes "distinct names"
  shows "fold (\<lambda>n state. if c n then state(n \<mapsto> v n) else state) names s name =
           (if name \<in> set names \<and> c name then Some (v name) else s name)"
  using assms by (induction names arbitrary: s) auto

lemma distinct_booleanProps: "distinct booleanProps"
  by (simp add: booleanProps_list)

text \<open>
  The loop over the properties throws exactly when the map has the name of an array
  property with the value \<open>undefined\<close>, provided every property of type \<open>OBJECT\<close> has its
  key map; otherwise it has run the \<open>BOOLEAN\<close> case for the boolean properties in turn.
\<close>

lemma deserializeProps_result:
  assumes "\<forall>p\<in>set ps. prop_type p = OBJECT \<longrightarrow> keyMap p \<noteq> None"
  shows "deserializeProps m ps state =
     (if \<exists>p\<in>set ps. (prop_type p = ARRAY_NUMBER \<or> prop_type p = ARRAY_STRING)
            \<and> m (prop_name p) = Some None
      then Inl UndefinedValue
      else Inr (fold (\<lambda>name st. if hasKey m name
                        then st(name \<mapsto> (if m name = Some (Some ''false'') then False else True))
                        else st)
                  (map prop_name (filter (\<lambda>p. prop_type p = BOOLEAN) ps)) state))"
  using assms
proof (induction ps arbitrary: state)
  case Nil
  then show ?case by simp
next
  case (Cons p ps)
  then have ih: "\<And>st. deserializeProps m ps st =
     (if \<exists>p\<in>set ps. (prop_type p = ARRAY_NUMBER \<or> prop_type p = ARRAY_STRING)
            \<and> m (prop_name p) = Some None
      then Inl UndefinedValue
      else Inr (fold (\<lambda>name st. if hasKey m name
                        then st(name \<mapsto> (if m name = Some (Some ''false'') then False else True))
                        else st)
                  (map prop_name (filter (\<lambda>p. prop_type p = BOOLEAN) ps)) st))"
    by simp
  from Cons.prems have km: "prop_type p = OBJECT \<Longrightarrow> keyMap p \<noteq> None"
    by simp
  show ?case
  proof (cases "prop_type p")
    case OBJECT
    with km obtain keys where "keyMap p = Some keys"
      by auto
    with OBJECT show ?thesis
      by (auto simp: deserializeProp_def Let_def ih)
  next
    case ARRAY_NUMBER
    then show ?thesis
      by (cases "m (prop_name p)")
        (auto simp: deserializeProp_def Let_def parseArray_def ih split: option.splits)
  next
    case ARRAY_STRING
    then show ?thesis
      by (cases "m (prop_name p)")
        (auto simp: deserializeProp_def Let_def parseArray_def ih split: option.splits)
  qed (auto simp: deserializeProp_def Let_def ih)
qed

lemma deserializeProps_PROPS:
  "deserializeProps m PROPS state =
     (if m ''networkShape'' = Some None then Inl UndefinedValue
      else Inr (fold (\<lambda>name st. if hasKey m name
                        then st(name \<mapsto> (if m name = Some (Some ''false'') then False else True))
                        else st) booleanProps state))"
proof -
  have km: "\<forall>p\<in>set PROPS. prop_type p = OBJECT \<longrightarrow> keyMap p \<noteq> None"
    by (simp add: PROPS_def)
  have arr: "(\<exists>p\<in>set PROPS. (prop_type p = ARRAY_NUMBER \<or> prop_type p = ARRAY_STRING)
                \<and> m (prop_name p) = Some None) \<longleftrightarrow> m ''networkShape'' = Some None"
    by (simp add: PROPS_def)
  show ?thesis
    unfolding deserializeProps_result [OF km] arr booleanProps_def ..
qed

lemma deserializeState_throws:
  assumes "hashMap hash ''networkShape'' = Some None"
  shows "deserializeState hash = Inl UndefinedValue"
  using assms by (simp add: deserializeState_def deserializeProps_PROPS Let_def)

lemma deserializeState_returns:
  assumes "hashMap hash ''networkShape'' \<noteq> Some None"
  shows "\<exists>state. deserializeState hash = Inr state
     \<and> (\<forall>name\<in>set booleanProps. state name =
          (case hashMap hash name of
             None \<Rightarrow> defaults name
           | Some None \<Rightarrow> defaults name
           | Some (Some value) \<Rightarrow>
               if trim value = [] then defaults name else Some (value \<noteq> ''false'')))"
proof -
  let ?m = "hashMap hash"
  let ?hideProps = "filter (\<lambda>prop. endsWith prop HIDE_STATE_SUFFIX) (map fst (keyvalues hash))"
  let ?state1 = "fold (\<lambda>name st. if hasKey ?m name
                        then st(name \<mapsto> (if ?m name = Some (Some ''false'') then False else True))
                        else st) booleanProps defaults"
  let ?state = "fold (\<lambda>prop state. state(prop \<mapsto> (if ?m prop = Some (Some ''true'') then True else False)))
                  ?hideProps ?state1"
  have ret: "deserializeState hash = Inr ?state"
    using assms by (simp add: deserializeState_def deserializeProps_PROPS Let_def)
  have "?state name =
          (case ?m name of
             None \<Rightarrow> defaults name
           | Some None \<Rightarrow> defaults name
           | Some (Some value) \<Rightarrow>
               if trim value = [] then defaults name else Some (value \<noteq> ''false''))"
    if b: "name \<in> set booleanProps" for name
  proof -
    have "name \<notin> set ?hideProps"
      using booleanProps_not_hidden [OF b] by simp
    then show ?thesis
      using b
      by (simp add: fold_upd_other fold_cond_upd [OF distinct_booleanProps] hasKey_def
          split: option.split)
  qed
  with ret show ?thesis
    by blast
qed

text \<open>
  C10, as the code has it. \<open>State.deserializeState\<close> throws a TypeError, and returns no
  state, when the map has \<open>networkShape\<close> with the value \<open>undefined\<close> (the name without
  \<open>=\<close> in its last piece of the hash). For every other hash it returns a state, and for
  each boolean property of \<open>State.PROPS\<close>: when the map has the name with a value that
  is not blank (not empty after \<open>trim()\<close>), the property is false when the value is
  exactly \<open>false\<close> and true for every other such value; when the name is missing, or its
  value is \<open>undefined\<close>, empty or only white space, the property keeps the value of
  \<open>new State()\<close>.
\<close>

theorem deserializeState_boolean:
  "if hashMap hash ''networkShape'' = Some None
   then deserializeState hash = Inl UndefinedValue
   else \<exists>state. deserializeState hash = Inr state
     \<and> (\<forall>name\<in>set booleanProps. state name =
          (case hashMap hash name of
             None \<Rightarrow> defaults name
           | Some None \<Rightarrow> defaults name
           | Some (Some value) \<Rightarrow>
               if trim value = [] then defaults name else Some (value \<noteq> ''false'')))"
  using deserializeState_throws [of hash] deserializeState_returns [of hash]
  by (cases "hashMap hash ''networkShape'' = Some None") simp_all

text \<open>
  On the hash \<open>#discretize=0&x=false&networkShape=4,2\<close> a state is returned in which
  \<open>discretize\<close> is true, \<open>x\<close> is false and \<open>y\<close>, which the hash does not name, has its
  default, true; on the hash \<open>#networkShape\<close> the call throws.
\<close>

theorem deserializeState_boolean_witness:
  "hashMap ''#discretize=0&x=false&networkShape=4,2'' ''networkShape'' = Some (Some ''4,2'')
   \<and> hashMap ''#discretize=0&x=false&networkShape=4,2'' ''discretize'' = Some (Some ''0'')
   \<and> hashMap ''#discretize=0&x=false&networkShape=4,2'' ''x'' = Some (Some ''false'')
   \<and> hashMap ''#discretize=0&x=false&networkShape=4,2'' ''y'' = None
   \<and> (\<exists>state. deserializeState ''#discretize=0&x=false&networkShape=4,2'' = Inr state
        \<and> state ''discretize'' = Some True \<and> state ''x'' = Some False \<and> state ''y'' = Some True)
   \<and> hashMap ''#networkShape'' ''networkShape'' = Some None
   \<and> deserializeState ''#networkShape'' = Inl UndefinedValue"
proof -
  let ?hash = "''#discretize=0&x=false&networkShape=4,2''"
  have n: "hashMap ?hash ''networkShape'' = Some (Some ''4,2'')"
    and d: "hashMap ?hash ''discretize'' = Some (Some ''0'')"
    and x: "hashMap ?hash ''x'' = Some (Some ''false'')"
    and y: "hashMap ?hash ''y'' = None"
    by (simp_all add: hashMap_def keyvalues_def Let_def)
  from deserializeState_boolean [of ?hash] n obtain state where
    ret: "deserializeState ?hash = Inr state"
    and all: "\<forall>name\<in>set booleanProps. state name =
          (case hashMap ?hash name of
             None \<Rightarrow> defaults name
           | Some None \<Rightarrow> defaults name
           | Some (Some value) \<Rightarrow>
               if trim value = [] then defaults name else Some (value \<noteq> ''false''))"
    by auto
  have "state ''discretize'' = Some True" and "state ''x'' = Some False"
    and "state ''y'' = Some True"
    using all by (simp_all add: booleanProps_list d x y defaults_def trim_def isWhiteSpace_def)
  with ret have returned: "\<exists>state. deserializeState ?hash = Inr state
      \<and> state ''discretize'' = Some True \<and> state ''x'' = Some False \<and> state ''y'' = Some True"
    by blast
  have u: "hashMap ''#networkShape'' ''networkShape'' = Some None"
    by (simp add: hashMap_def keyvalues_def Let_def)
  from deserializeState_boolean [of "''#networkShape''"] u
  have thrown: "deserializeState ''#networkShape'' = Inl UndefinedValue"
    by simp
  from n d x y returned u thrown show ?thesis
    by simp
qed

text \<open>
  The claim as stated fails in two ways. For a value of one space, which is not empty and
  is not \<open>false\<close>, \<open>discretize\<close> keeps its default, false. And on the hash
  \<open>#discretize=true&networkShape\<close> the map has \<open>discretize\<close> with the value \<open>true\<close>,
  yet no property is set to true: the call throws and returns no state.
\<close>

theorem deserializeState_boolean_counterexample:
  "hashMap ''#discretize= '' ''discretize'' = Some (Some '' '')
   \<and> '' '' \<noteq> [] \<and> '' '' \<noteq> ''false''
   \<and> defaults ''discretize'' = Some False
   \<and> (\<exists>state. deserializeState ''#discretize= '' = Inr state \<and> state ''discretize'' = Some False)
   \<and> hashMap ''#discretize=true&networkShape'' ''discretize'' = Some (Some ''true'')
   \<and> deserializeState ''#discretize=true&networkShape'' = Inl UndefinedValue"
proof -
  have m: "hashMap ''#discretize= '' ''discretize'' = Some (Some '' '')"
    and n: "hashMap ''#discretize= '' ''networkShape'' \<noteq> Some None"
    by (simp_all add: hashMap_def keyvalues_def Let_def)
  have b: "''discretize'' \<in> set booleanProps"
    by (simp add: booleanProps_list)
  have d: "defaults ''discretize'' = Some False"
    by (simp add: defaults_def)
  from deserializeState_returns [OF n] obtain state where
    ret: "deserializeState ''#discretize= '' = Inr state"
    and all: "\<forall>name\<in>set booleanProps. state name =
          (case hashMap ''#discretize= '' name of
             None \<Rightarrow> defaults name
           | Some None \<Rightarrow> defaults name
           | Some (Some value) \<Rightarrow>
               if trim value = [] then defaults name else Some (value \<noteq> ''false''))"
    by blast
  from all b have "state ''discretize'' = Some False"
    by (simp add: m d trim_def isWhiteSpace_def)
  with ret have one: "\<exists>state. deserializeState ''#discretize= '' = Inr state
      \<and> state ''discretize'' = Some False"
    by blast
  have m2: "hashMap ''#discretize=true&networkShape'' ''discretize'' = Some (Some ''true'')"
    and n2: "hashMap ''#discretize=true&networkShape'' ''networkShape'' = Some None"
    by (simp_all add: hashMap_def keyvalues_def Let_def)
  from m d one m2 deserializeState_throws [OF n2] show ?thesis
    by simp
qed

section \<open>The network that \<open>buildNetwork\<close> builds\<close>

lemma fold_upt_inv:
  assumes "P 0 s" and "\<And>i s. i < n \<Longrightarrow> P i s \<Longrightarrow> P (Suc i) (f i s)"
  shows "P n (fold f [0..<n] s)"
  using assms(2)
proof (induction n)
  case 0
  then show ?case using assms(1) by simp
next
  case (Suc n)
  have "P n (fold f [0..<n] s)"
    by (rule Suc.IH) (simp add: Suc.prems)
  then show ?case
    by (simp add: Suc.prems)
qed

lemma linkPrevLayer_fold:
  "linkPrevLayer prevLayer node reg initZero rnd h = fold (linkStep node reg initZero rnd) prevLayer h"
  by (simp add: linkPrevLayer_def forEach_fold linkStep_def [abs_def] Let_def)

lemma linkStep_next [simp]:
  "nextNode (linkStep node reg z rnd p s) = nextNode s"
  "nextLink (linkStep node reg z rnd p s) = Suc (nextLink s)"
  by (simp_all add: linkStep_def newLink_def)

lemma linkStep_inputLinks:
  "inputLinks (nodeAt (linkStep node reg z rnd p s) a) =
     (if a = node then inputLinks (nodeAt s node) @ [nextLink s] else inputLinks (nodeAt s a))"
  by (simp add: linkStep_def newLink_def nodeAt_setNode)

lemma linkStep_linkAt:
  "linkAt (linkStep node reg z rnd p s) l =
     (if l = nextLink s
      then \<lparr> lid = showId (nid (nodeAt s p)) @ ''-'' @ showId (nid (nodeAt s node)),
              source = p, dest = node, weight = (if z then 0 else rnd (nextLink s) - 0.5),
              isDead = False, errorDer = 0, accErrorDer = 0, linkNumAccumulatedDers = 0,
              regularization = reg \<rparr>
      else linkAt s l)"
  by (simp add: linkStep_def newLink_def)

lemma linkStep_node_fields:
  "bias (nodeAt (linkStep node reg z rnd p s) a) = bias (nodeAt s a)"
  "activation (nodeAt (linkStep node reg z rnd p s) a) = activation (nodeAt s a)"
  by (simp_all add: linkStep_def newLink_def nodeAt_setNode)

lemma linkPrevLayer_next:
  "nextNode (linkPrevLayer prev node reg z rnd h) = nextNode h"
  "nextLink (linkPrevLayer prev node reg z rnd h) = nextLink h + length prev"
  unfolding linkPrevLayer_fold by (induction prev arbitrary: h) simp_all

lemma upt_add_Suc: "[b..<b + Suc n] = b # [Suc b..<Suc b + n]"
  by (subst upt_rec) simp

lemma linkPrevLayer_inputLinks:
  "inputLinks (nodeAt (linkPrevLayer prev node reg z rnd h) a) =
     (if a = node then inputLinks (nodeAt h node) @ [nextLink h..<nextLink h + length prev]
      else inputLinks (nodeAt h a))"
  unfolding linkPrevLayer_fold
proof (induction prev arbitrary: h)
  case Nil
  then show ?case by simp
next
  case (Cons p prev)
  show ?case
    using upt_add_Suc [of "nextLink h" "length prev"]
    by (simp add: Cons.IH linkStep_inputLinks)
qed

lemma linkPrevLayer_old:
  assumes "l < nextLink h"
  shows "linkAt (linkPrevLayer prev node reg z rnd h) l = linkAt h l"
  unfolding linkPrevLayer_fold using assms
proof (induction prev arbitrary: h)
  case Nil
  then show ?case by simp
next
  case (Cons p prev)
  then show ?case
    by (simp add: linkStep_linkAt)
qed

lemma linkPrevLayer_new:
  assumes "j < length prev"
  shows "source (linkAt (linkPrevLayer prev node reg z rnd h) (nextLink h + j)) = prev ! j
       \<and> dest (linkAt (linkPrevLayer prev node reg z rnd h) (nextLink h + j)) = node"
  using assms
proof (induction prev arbitrary: h j)
  case Nil
  then show ?case by simp
next
  case (Cons p prev)
  let ?h1 = "linkStep node reg z rnd p h"
  have unf: "linkPrevLayer (p # prev) node reg z rnd h = linkPrevLayer prev node reg z rnd ?h1"
    by (simp add: linkPrevLayer_fold)
  show ?case
  proof (cases j)
    case 0
    have "linkAt (linkPrevLayer prev node reg z rnd ?h1) (nextLink h) = linkAt ?h1 (nextLink h)"
      by (rule linkPrevLayer_old) simp
    then show ?thesis
      using 0 by (simp add: unf linkStep_linkAt)
  next
    case (Suc j')
    then have "j' < length prev"
      using Cons.prems by simp
    from Cons.IH [OF this, of ?h1] show ?thesis
      using Suc by (simp add: unf)
  qed
qed

lemma linkPrevLayer_node_fields:
  "bias (nodeAt (linkPrevLayer prev node reg z rnd h) a) = bias (nodeAt h a)"
  "activation (nodeAt (linkPrevLayer prev node reg z rnd h) a) = activation (nodeAt h a)"
  unfolding linkPrevLayer_fold
  by (induction prev arbitrary: h) (simp_all add: linkStep_node_fields)

lemma linkPrevLayer_weights:
  assumes "\<forall>l. weight (linkAt h l) = 0"
  shows "\<forall>l. weight (linkAt (linkPrevLayer prev node reg True rnd h) l) = 0"
  unfolding linkPrevLayer_fold using assms
  by (induction prev arbitrary: h) (simp_all add: linkStep_linkAt)

lemma newNode_simps [simp]:
  "nextNode (newNode ident a z u h) = Suc (nextNode h)"
  "nextLink (newNode ident a z u h) = nextLink h"
  "linkAt (newNode ident a z u h) = linkAt h"
  "x \<noteq> nextNode h \<Longrightarrow> nodeAt (newNode ident a z u h) x = nodeAt h x"
  "inputLinks (nodeAt (newNode ident a z u h) (nextNode h)) = []"
  "activation (nodeAt (newNode ident a z u h) (nextNode h)) = a"
  "bias (nodeAt (newNode ident a z u h) (nextNode h)) = (if z then 0 else 0.1)"
  by (simp_all add: newNode_def)

lemma addNode_network:
  assumes "b_network s = done @ [cur]" and "layerIdx = length done"
  shows "b_network (addNode numLayers layerIdx act oact reg ids z rnd unset i s)
       = done @ [cur @ [nextNode (b_heap s)]]"
  using assms by (simp add: addNode_def Let_def)

lemma addNode_heap:
  assumes "b_network s = done @ [cur]" and "layerIdx = length done"
  shows "\<exists>ident. b_heap (addNode numLayers layerIdx act oact reg ids z rnd unset i s) =
     (if 1 \<le> layerIdx
      then linkPrevLayer (done ! (layerIdx - 1)) (nextNode (b_heap s)) reg z rnd
             (newNode ident (if layerIdx = numLayers - 1 then oact else act) z unset (b_heap s))
      else newNode ident (if layerIdx = numLayers - 1 then oact else act) z unset (b_heap s))"
proof (cases "layerIdx = 0")
  case True
  with assms show ?thesis
    by (auto simp: addNode_def Let_def)
next
  case False
  with assms have "(done @ [cur @ [nextNode (b_heap s)]]) ! (layerIdx - 1) = done ! (layerIdx - 1)"
    by (simp add: nth_append)
  with False assms show ?thesis
    by (auto simp: addNode_def Let_def)
qed

lemma in_concat_nth: "i < length xss \<Longrightarrow> x \<in> set (xss ! i) \<Longrightarrow> x \<in> set (concat xss)"
  unfolding set_concat using nth_mem by blast

lemma map_upt_shift: "map f [b..<b + n] = map (\<lambda>j. f (b + j)) [0..<n]"
proof -
  have "[b..<b + n] = map (\<lambda>i. i + b) [0..<n]"
    by (simp add: map_add_upt add.commute)
  then show ?thesis
    by (simp add: comp_def add.commute)
qed

lemma wired_step:
  assumes w: "wired h (done @ [cur])"
    and h': "h' = (if 1 \<le> length done
               then linkPrevLayer (done ! (length done - 1)) (nextNode h) reg z rnd
                      (newNode ident a z u h)
               else newNode ident a z u h)"
  shows "wired h' (done @ [cur @ [nextNode h]])"
proof -
  let ?node = "nextNode h"
  let ?b = "nextLink h"
  let ?k = "length done"
  let ?prev = "done ! (?k - 1)"
  let ?net = "done @ [cur]"
  let ?net' = "done @ [cur @ [?node]]"
  let ?h1 = "newNode ident a z u h"
  let ?new = "if 1 \<le> ?k then [?b..<?b + length ?prev] else []"
  note d1 = w [unfolded wired_def, THEN conjunct1]
  note d2 = w [unfolded wired_def, THEN conjunct2, THEN conjunct1]
  note d3 = w [unfolded wired_def, THEN conjunct2, THEN conjunct2, rule_format]
  have old: "a < ?node" if "a \<in> set (concat ?net)" for a
    using that unfolding d1 by simp
  have oldl: "l < ?b" if "a \<in> set (concat ?net)" "l \<in> set (inputLinks (nodeAt h a))" for a l
  proof -
    have "l \<in> set (concat (map (\<lambda>a. inputLinks (nodeAt h a)) (concat ?net)))"
      using that by auto
    then show ?thesis unfolding d2 by simp
  qed
  have il: "inputLinks (nodeAt h' x) = (if x = ?node then ?new else inputLinks (nodeAt h x))" for x
    unfolding h' by (simp add: linkPrevLayer_inputLinks)
  have keep: "linkAt h' l = linkAt h l" if "l < ?b" for l
    unfolding h' using that by (simp add: linkPrevLayer_old)
  have nn: "nextNode h' = Suc ?node"
    unfolding h' by (simp add: linkPrevLayer_next)
  have nl: "nextLink h' = ?b + length ?new"
    unfolding h' by (simp add: linkPrevLayer_next)
  have new: "source (linkAt h' (?b + j)) = ?prev ! j \<and> dest (linkAt h' (?b + j)) = ?node"
    if "1 \<le> ?k" "j < length ?prev" for j
    using linkPrevLayer_new [OF that(2), of ?node reg z rnd ?h1] that(1) unfolding h' by simp
  have D1: "concat ?net' = [0..<nextNode h']"
    using d1 by (simp add: nn)
  have same: "map (\<lambda>a. inputLinks (nodeAt h' a)) (concat ?net)
            = map (\<lambda>a. inputLinks (nodeAt h a)) (concat ?net)"
    using old by (intro map_cong refl) (auto simp: il)
  have "concat (map (\<lambda>a. inputLinks (nodeAt h' a)) (concat ?net'))
      = concat (map (\<lambda>a. inputLinks (nodeAt h' a)) (concat ?net)) @ ?new"
    by (simp add: il)
  also have "\<dots> = [0..<?b] @ ?new"
    unfolding same d2 ..
  also have "\<dots> = [0..<?b + length ?new]"
    using upt_add_eq_append [of 0 ?b "length ?prev"] by simp
  finally have D2: "concat (map (\<lambda>a. inputLinks (nodeAt h' a)) (concat ?net')) = [0..<nextLink h']"
    by (simp add: nl)
  have carried: "map (\<lambda>l. source (linkAt h' l)) (inputLinks (nodeAt h' x))
             = (if i = 0 then [] else ?net' ! (i - 1))
           \<and> (\<forall>l\<in>set (inputLinks (nodeAt h' x)). dest (linkAt h' l) = x)"
    if i: "i < length ?net" and x: "x \<in> set (?net ! i)" for i x
  proof -
    have mem: "x \<in> set (concat ?net)"
      using i x by (rule in_concat_nth)
    then have ilx: "inputLinks (nodeAt h' x) = inputLinks (nodeAt h x)"
      using old [OF mem] by (simp add: il)
    have lk: "linkAt h' l = linkAt h l" if "l \<in> set (inputLinks (nodeAt h x))" for l
      using oldl [OF mem that] by (rule keep)
    have prevsame: "?net' ! (i - 1) = ?net ! (i - 1)" if "i \<noteq> 0"
    proof -
      have "i - 1 < length done"
        using i that by simp
      then show ?thesis
        by (simp add: nth_append)
    qed
    have "map (\<lambda>l. source (linkAt h' l)) (inputLinks (nodeAt h x))
        = map (\<lambda>l. source (linkAt h l)) (inputLinks (nodeAt h x))"
      by (intro map_cong refl) (simp add: lk)
    with d3 [OF i x] prevsame show ?thesis
      by (auto simp: ilx lk)
  qed
  have fresh: "map (\<lambda>l. source (linkAt h' l)) (inputLinks (nodeAt h' ?node))
             = (if ?k = 0 then [] else ?net' ! (?k - 1))
           \<and> (\<forall>l\<in>set (inputLinks (nodeAt h' ?node)). dest (linkAt h' l) = ?node)"
  proof (cases "1 \<le> ?k")
    case False
    then have "done = []" by (cases "done") simp_all
    then show ?thesis by (simp add: il)
  next
    case True
    have "map (\<lambda>l. source (linkAt h' l)) [?b..<?b + length ?prev]
        = map (\<lambda>j. source (linkAt h' (?b + j))) [0..<length ?prev]"
      by (rule map_upt_shift)
    also have "\<dots> = map (\<lambda>j. ?prev ! j) [0..<length ?prev]"
      using new [OF True] by (intro map_cong refl) simp
    also have "\<dots> = ?prev"
      by (rule map_nth)
    finally have src: "map (\<lambda>l. source (linkAt h' l)) [?b..<?b + length ?prev] = ?prev" .
    have dst: "dest (linkAt h' l) = ?node" if "l \<in> set [?b..<?b + length ?prev]" for l
    proof -
      from that obtain j where "l = ?b + j" "j < length ?prev"
        by (auto simp: le_iff_add)
      with new [OF True, of j] show ?thesis by simp
    qed
    have "?k - 1 < ?k"
      using True by simp
    then have "?net' ! (?k - 1) = ?prev"
      by (simp only: nth_append if_True)
    moreover have "?k \<noteq> 0"
      using True by (cases "done") simp_all
    ultimately show ?thesis
      using True src dst by (simp add: il)
  qed
  have D3: "map (\<lambda>l. source (linkAt h' l)) (inputLinks (nodeAt h' x))
             = (if i = 0 then [] else ?net' ! (i - 1))
           \<and> (\<forall>l\<in>set (inputLinks (nodeAt h' x)). dest (linkAt h' l) = x)"
    if i: "i < length ?net'" and x: "x \<in> set (?net' ! i)" for i x
  proof (cases "i < ?k")
    case True
    then have "?net' ! i = ?net ! i"
      by (simp add: nth_append)
    with carried [of i x] True x show ?thesis by simp
  next
    case False
    then have ik: "i = ?k"
      using i by simp
    then have "x \<in> set cur \<or> x = ?node"
      using x by auto
    then show ?thesis
    proof
      assume "x \<in> set cur"
      then have "x \<in> set (?net ! ?k)" by simp
      with carried [of ?k x] ik show ?thesis by simp
    next
      assume "x = ?node"
      with fresh ik show ?thesis by simp
    qed
  qed
  have D3': "\<forall>i<length ?net'. \<forall>a\<in>set (?net' ! i).
           map (\<lambda>l. source (linkAt h' l)) (inputLinks (nodeAt h' a))
             = (if i = 0 then [] else ?net' ! (i - 1))
           \<and> (\<forall>l\<in>set (inputLinks (nodeAt h' a)). dest (linkAt h' l) = a)"
    using D3 by blast
  show ?thesis
    unfolding wired_def by (rule conjI [OF D1 conjI [OF D2 D3']])
qed

lemma step_node_fields:
  assumes h': "h' = (if 1 \<le> k
               then linkPrevLayer prev (nextNode h) reg z rnd (newNode ident a z u h)
               else newNode ident a z u h)"
  shows "x \<noteq> nextNode h \<Longrightarrow> activation (nodeAt h' x) = activation (nodeAt h x)"
    and "activation (nodeAt h' (nextNode h)) = a"
    and "x \<noteq> nextNode h \<Longrightarrow> bias (nodeAt h' x) = bias (nodeAt h x)"
    and "bias (nodeAt h' (nextNode h)) = (if z then 0 else 0.1)"
  unfolding h' by (simp_all add: linkPrevLayer_node_fields)

lemma activated_step:
  assumes w: "wired h (done @ [cur])" and a: "activated numLayers act oact h (done @ [cur])"
    and h': "h' = (if 1 \<le> length done
               then linkPrevLayer (done ! (length done - 1)) (nextNode h) reg z rnd
                      (newNode ident (if length done = numLayers - 1 then oact else act) z u h)
               else newNode ident (if length done = numLayers - 1 then oact else act) z u h)"
  shows "activated numLayers act oact h' (done @ [cur @ [nextNode h]])"
  unfolding activated_def
proof (intro allI impI ballI)
  fix i x
  let ?net = "done @ [cur]"
  let ?net' = "done @ [cur @ [nextNode h]]"
  assume i: "i < length ?net'" and x: "x \<in> set (?net' ! i)"
  note d1 = w [unfolded wired_def, THEN conjunct1]
  note f = step_node_fields [OF h']
  note old = a [unfolded activated_def, rule_format]
  have il: "i < length ?net"
    using i by simp
  show "activation (nodeAt h' x) = (if i = numLayers - 1 then oact else act)"
  proof (cases "x = nextNode h")
    case True
    have "i = length done"
    proof (rule ccontr)
      assume "i \<noteq> length done"
      then have "i < length done" using i by simp
      then have "x \<in> set (?net ! i)"
        using x by (simp add: nth_append)
      with il have "x \<in> set (concat ?net)"
        by (rule in_concat_nth)
      then show False
        unfolding d1 using True by simp
    qed
    with True show ?thesis by (simp add: f(2))
  next
    case False
    have "x \<in> set (?net ! i)"
    proof (cases "i < length done")
      case True
      then show ?thesis using x by (simp add: nth_append)
    next
      case False
      then have "i = length done" using i by simp
      then show ?thesis using x \<open>x \<noteq> nextNode h\<close> by simp
    qed
    from old [OF il this] False show ?thesis
      by (simp add: f(1))
  qed
qed

lemma zeroed_step:
  assumes "zeroed h"
    and h': "h' = (if 1 \<le> k
               then linkPrevLayer prev (nextNode h) reg True rnd (newNode ident a True u h)
               else newNode ident a True u h)"
  shows "zeroed h'"
proof -
  note f = step_node_fields [OF h']
  have "bias (nodeAt h' x) = 0" for x
    using assms(1) f(3) [of x] f(4) by (cases "x = nextNode h") (simp_all add: zeroed_def)
  moreover have "\<forall>l. weight (linkAt h' l) = 0"
    unfolding h' using assms(1) by (simp add: linkPrevLayer_weights zeroed_def)
  ultimately show ?thesis
    by (simp add: zeroed_def)
qed

lemma snoc_empty_nth:
  assumes "i < length (net @ [[]])" and "a \<in> set ((net @ [[]]) ! i)"
  shows "i < length net" and "(net @ [[]]) ! i = net ! i"
    and "(net @ [[]]) ! (i - 1) = net ! (i - 1)"
proof -
  show il: "i < length net"
    using assms by (cases "i < length net") (auto simp: nth_append)
  then show "(net @ [[]]) ! i = net ! i"
    by (simp add: nth_append)
  from il have "i - 1 < length net"
    by simp
  then show "(net @ [[]]) ! (i - 1) = net ! (i - 1)"
    by (simp only: nth_append if_True)
qed

lemma wired_snoc:
  assumes w: "wired h net"
  shows "wired h (net @ [[]])"
proof -
  note d1 = w [unfolded wired_def, THEN conjunct1]
  note d2 = w [unfolded wired_def, THEN conjunct2, THEN conjunct1]
  note d3 = w [unfolded wired_def, THEN conjunct2, THEN conjunct2, rule_format]
  have D1: "concat (net @ [[]]) = [0..<nextNode h]"
    using d1 by simp
  have D2: "concat (map (\<lambda>a. inputLinks (nodeAt h a)) (concat (net @ [[]]))) = [0..<nextLink h]"
    using d2 by simp
  have D3: "\<forall>i<length (net @ [[]]). \<forall>a\<in>set ((net @ [[]]) ! i).
           map (\<lambda>l. source (linkAt h l)) (inputLinks (nodeAt h a))
             = (if i = 0 then [] else (net @ [[]]) ! (i - 1))
           \<and> (\<forall>l\<in>set (inputLinks (nodeAt h a)). dest (linkAt h l) = a)"
  proof (intro allI impI ballI)
    fix i a
    assume i: "i < length (net @ [[]])" and a: "a \<in> set ((net @ [[]]) ! i)"
    note n = snoc_empty_nth [OF i a]
    from a have "a \<in> set (net ! i)"
      by (simp only: n(2))
    note r = d3 [OF n(1) this]
    show "map (\<lambda>l. source (linkAt h l)) (inputLinks (nodeAt h a))
             = (if i = 0 then [] else (net @ [[]]) ! (i - 1))
           \<and> (\<forall>l\<in>set (inputLinks (nodeAt h a)). dest (linkAt h l) = a)"
      unfolding n(3) by (rule r)
  qed
  show ?thesis
    unfolding wired_def by (rule conjI [OF D1 conjI [OF D2 D3]])
qed

lemma activated_snoc:
  assumes a: "activated numLayers act oact h net"
  shows "activated numLayers act oact h (net @ [[]])"
  unfolding activated_def
proof (intro allI impI ballI)
  fix i x
  assume i: "i < length (net @ [[]])" and x: "x \<in> set ((net @ [[]]) ! i)"
  note n = snoc_empty_nth [OF i x]
  from x have "x \<in> set (net ! i)"
    by (simp only: n(2))
  with a n(1) show "activation (nodeAt h x) = (if i = numLayers - 1 then oact else act)"
    unfolding activated_def by blast
qed

lemma building_addNode:
  assumes "building numLayers act oact z s" and "b_network s = done @ [cur]"
  shows "building numLayers act oact z
           (addNode numLayers (length done) act oact reg ids z rnd unset i s)
       \<and> b_network (addNode numLayers (length done) act oact reg ids z rnd unset i s)
           = done @ [cur @ [nextNode (b_heap s)]]"
proof -
  let ?s' = "addNode numLayers (length done) act oact reg ids z rnd unset i s"
  have net: "b_network ?s' = done @ [cur @ [nextNode (b_heap s)]]"
    using assms(2) by (simp add: addNode_network)
  obtain ident where heap: "b_heap ?s' =
     (if 1 \<le> length done
      then linkPrevLayer (done ! (length done - 1)) (nextNode (b_heap s)) reg z rnd
             (newNode ident (if length done = numLayers - 1 then oact else act) z unset (b_heap s))
      else newNode ident (if length done = numLayers - 1 then oact else act) z unset (b_heap s))"
    using addNode_heap [OF assms(2) refl] by blast
  have w: "wired (b_heap s) (done @ [cur])"
    and a: "activated numLayers act oact (b_heap s) (done @ [cur])"
    and zz: "z \<Longrightarrow> zeroed (b_heap s)"
    using assms by (simp_all add: building_def)
  have "wired (b_heap ?s') (b_network ?s')"
    unfolding net using w heap by (rule wired_step)
  moreover have "activated numLayers act oact (b_heap ?s') (b_network ?s')"
    unfolding net using w a heap by (rule activated_step)
  moreover have "zeroed (b_heap ?s')" if z
  proof -
    from that have zt: "z = True" by simp
    show ?thesis
      using zz [OF that] heap unfolding zt by (rule zeroed_step)
  qed
  ultimately show ?thesis
    using net by (simp add: building_def)
qed

lemma building_layer:
  assumes "building numLayers act oact z s"
  shows "building numLayers act oact z
           (for_loop 0 n (addNode numLayers (length (b_network s)) act oact reg ids z rnd unset)
              (s\<lparr>b_network := b_network s @ [[]]\<rparr>))
       \<and> map length (b_network
           (for_loop 0 n (addNode numLayers (length (b_network s)) act oact reg ids z rnd unset)
              (s\<lparr>b_network := b_network s @ [[]]\<rparr>)))
         = map length (b_network s) @ [n]"
proof -
  let ?done = "b_network s"
  let ?s1 = "s\<lparr>b_network := b_network s @ [[]]\<rparr>"
  let ?P = "\<lambda>i t. building numLayers act oact z t \<and> (\<exists>cur. b_network t = ?done @ [cur] \<and> length cur = i)"
  have w: "wired (b_heap s) ?done"
    and a: "activated numLayers act oact (b_heap s) ?done"
    using assms by (simp_all add: building_def)
  have "wired (b_heap s) (?done @ [[]])"
    using w by (rule wired_snoc)
  moreover have "activated numLayers act oact (b_heap s) (?done @ [[]])"
    using a by (rule activated_snoc)
  ultimately have start: "?P 0 ?s1"
    using assms by (simp add: building_def)
  have "?P n (fold (addNode numLayers (length ?done) act oact reg ids z rnd unset) [0..<n] ?s1)"
  proof (rule fold_upt_inv [where P = ?P, OF start])
    fix i t
    assume "?P i t"
    then obtain cur where b: "building numLayers act oact z t"
        and c: "b_network t = ?done @ [cur]" "length cur = i"
      by (elim conjE exE)
    note st = building_addNode [OF b c(1), of reg ids rnd unset i]
    have "length (cur @ [nextNode (b_heap t)]) = Suc i"
      using c(2) by simp
    with st show "?P (Suc i) (addNode numLayers (length ?done) act oact reg ids z rnd unset i t)"
      by blast
  qed
  then obtain cur where "building numLayers act oact z
        (fold (addNode numLayers (length ?done) act oact reg ids z rnd unset) [0..<n] ?s1)"
    and "b_network (fold (addNode numLayers (length ?done) act oact reg ids z rnd unset) [0..<n] ?s1)
        = ?done @ [cur]"
    and "length cur = n"
    by blast
  then show ?thesis
    unfolding for_loop_fold by simp
qed

lemma buildNetwork_building:
  assumes "(h, net) = buildNetwork shape act oact reg ids z rnd unset"
  shows "wired h net \<and> activated (length shape) act oact h net \<and> (z \<longrightarrow> zeroed h)
       \<and> map length net = shape"
proof -
  let ?s0 = "\<lparr> b_id = 1, b_network = [], b_heap = emptyHeap \<rparr>"
  let ?body = "\<lambda>layerIdx s.
     for_loop 0 (shape ! layerIdx)
       (addNode (length shape) layerIdx act oact reg ids z rnd unset)
       (s\<lparr>b_network := b_network s @ [[]]\<rparr>)"
  let ?P = "\<lambda>k s. building (length shape) act oact z s \<and> map length (b_network s) = take k shape"
  have start: "?P 0 ?s0"
    by (simp add: building_def wired_def activated_def zeroed_def emptyHeap_def blankNode_def
        blankLink_def)
  have fin: "?P (length shape) (fold ?body [0..<length shape] ?s0)"
  proof (rule fold_upt_inv [where P = ?P, OF start])
    fix k s
    assume k: "k < length shape" and P: "?P k s"
    have "length (map length (b_network s)) = length (take k shape)"
      using P by simp
    then have len: "length (b_network s) = k"
      using k by simp
    have tk: "take (Suc k) shape = take k shape @ [shape ! k]"
      using k by (rule take_Suc_conv_app_nth)
    note st = building_layer [OF conjunct1 [OF P], of "shape ! k" reg ids rnd unset,
        unfolded len conjunct2 [OF P] tk [symmetric]]
    then show "?P (Suc k) (?body k s)" .
  qed
  have "h = b_heap (fold ?body [0..<length shape] ?s0)"
    and "net = b_network (fold ?body [0..<length shape] ?s0)"
    using assms by (simp_all add: buildNetwork_def Let_def for_loop_fold)
  with fin show ?thesis
    by (simp add: building_def)
qed

text \<open>
  C8. In the store and network that \<open>buildNetwork\<close> returns, for every shape: the layer
  sizes are those of the shape; the nodes of the network are the nodes created, each
  once; the incoming links of the nodes are the links created, each in one list and once;
  a node of the first layer has no incoming link; the sources of the incoming links of a
  node of layer \<open>i + 1\<close> are the nodes of layer \<open>i\<close>, one link for each in the order
  of the layer, and the destination of each of these links is the node itself; the number
  of links into layer \<open>i + 1\<close> is the product of the sizes of layers \<open>i\<close> and
  \<open>i + 1\<close>; and every link created goes from a layer to the next one.
\<close>

theorem buildNetwork_dense:
  assumes "(h, net) = buildNetwork networkShape act outputActivation reg inputIds initZero rnd unset"
  shows "map length net = networkShape
       \<and> concat net = [0..<nextNode h] \<and> distinct (concat net)
       \<and> concat (map (\<lambda>a. inputLinks (nodeAt h a)) (concat net)) = [0..<nextLink h]
       \<and> distinct (concat (map (\<lambda>a. inputLinks (nodeAt h a)) (concat net)))
       \<and> (net \<noteq> [] \<longrightarrow> (\<forall>a\<in>set (net ! 0). inputLinks (nodeAt h a) = []))
       \<and> (\<forall>i. Suc i < length net \<longrightarrow>
            (\<forall>a\<in>set (net ! Suc i).
               map (\<lambda>l. source (linkAt h l)) (inputLinks (nodeAt h a)) = net ! i
               \<and> (\<forall>l\<in>set (inputLinks (nodeAt h a)). dest (linkAt h l) = a)))
       \<and> (\<forall>i. Suc i < length net \<longrightarrow>
            length (concat (map (\<lambda>a. inputLinks (nodeAt h a)) (net ! Suc i)))
              = networkShape ! i * networkShape ! Suc i)
       \<and> (\<forall>l<nextLink h. \<exists>i. Suc i < length net \<and> source (linkAt h l) \<in> set (net ! i)
              \<and> dest (linkAt h l) \<in> set (net ! Suc i))"
proof -
  note b = buildNetwork_building [OF assms]
  from b have w: "wired h net" and len: "map length net = networkShape"
    by blast+
  note d1 = w [unfolded wired_def, THEN conjunct1]
  note d2 = w [unfolded wired_def, THEN conjunct2, THEN conjunct1]
  note d3 = w [unfolded wired_def, THEN conjunct2, THEN conjunct2, rule_format]
  have dn: "distinct (concat net)"
    unfolding d1 by simp
  have dl: "distinct (concat (map (\<lambda>a. inputLinks (nodeAt h a)) (concat net)))"
    unfolding d2 by simp
  have first: "inputLinks (nodeAt h a) = []" if "net \<noteq> []" "a \<in> set (net ! 0)" for a
    using d3 [of 0 a] that by simp
  have later: "map (\<lambda>l. source (linkAt h l)) (inputLinks (nodeAt h a)) = net ! i
               \<and> (\<forall>l\<in>set (inputLinks (nodeAt h a)). dest (linkAt h l) = a)"
    if "Suc i < length net" "a \<in> set (net ! Suc i)" for i a
    using d3 [OF that] by simp
  have sizes: "length (net ! i) = networkShape ! i" if "i < length net" for i
    using that len by (metis nth_map)
  have count: "length (concat (map (\<lambda>a. inputLinks (nodeAt h a)) (net ! Suc i)))
              = networkShape ! i * networkShape ! Suc i" if i: "Suc i < length net" for i
  proof -
    have each: "length (inputLinks (nodeAt h a)) = length (net ! i)" if "a \<in> set (net ! Suc i)" for a
      using later [OF i that] by (metis length_map)
    have "length (concat (map (\<lambda>a. inputLinks (nodeAt h a)) (net ! Suc i)))
        = (\<Sum>a\<leftarrow>net ! Suc i. length (inputLinks (nodeAt h a)))"
      by (simp add: length_concat comp_def)
    also have "\<dots> = (\<Sum>a\<leftarrow>net ! Suc i. length (net ! i))"
      using each by (intro arg_cong [where f = sum_list] map_cong refl) simp
    also have "\<dots> = length (net ! Suc i) * length (net ! i)"
      by (simp add: sum_list_triv)
    finally show ?thesis
      using i by (simp add: sizes mult.commute)
  qed
  have adjacent: "\<exists>i. Suc i < length net \<and> source (linkAt h l) \<in> set (net ! i)
              \<and> dest (linkAt h l) \<in> set (net ! Suc i)" if "l < nextLink h" for l
  proof -
    have "l \<in> set (concat (map (\<lambda>a. inputLinks (nodeAt h a)) (concat net)))"
      unfolding d2 using that by simp
    then obtain a where a: "a \<in> set (concat net)" "l \<in> set (inputLinks (nodeAt h a))"
      by auto
    from a(1) obtain xs where xs: "xs \<in> set net" "a \<in> set xs"
      by auto
    from xs(1) obtain j where "j < length net" "net ! j = xs"
      unfolding in_set_conv_nth by blast
    with xs(2) have j: "j < length net" "a \<in> set (net ! j)"
      by simp_all
    have "j \<noteq> 0"
    proof
      assume "j = 0"
      with j first [of a] a(2) show False by auto
    qed
    then obtain i where ji: "j = Suc i"
      by (cases j) auto
    note lt = later [OF j(1) [unfolded ji] j(2) [unfolded ji]]
    have "source (linkAt h l) \<in> set (map (\<lambda>l. source (linkAt h l)) (inputLinks (nodeAt h a)))"
      using a(2) by simp
    then have "source (linkAt h l) \<in> set (net ! i)"
      by (simp only: lt)
    moreover have "dest (linkAt h l) = a"
      using lt a(2) by blast
    ultimately show ?thesis
      using j ji by blast
  qed
  show ?thesis
    using len d1 dn d2 dl first later count adjacent by blast
qed

theorem buildNetwork_dense_witness:
  "map length (snd smallNetwork) = [2, 1]
   \<and> Suc 0 < length (snd smallNetwork)
   \<and> hd (snd smallNetwork ! Suc 0) \<in> set (snd smallNetwork ! Suc 0)
   \<and> map (\<lambda>l. source (linkAt (fst smallNetwork) l))
         (inputLinks (nodeAt (fst smallNetwork) (hd (snd smallNetwork ! Suc 0))))
       = snd smallNetwork ! 0
   \<and> length (concat (map (\<lambda>a. inputLinks (nodeAt (fst smallNetwork) a))
         (snd smallNetwork ! Suc 0))) = 2"
proof -
  have eq: "(fst smallNetwork, snd smallNetwork)
      = buildNetwork [2, 1] SIGMOID LINEAR None [''x'', ''y''] False (\<lambda>k. 0) 0"
    by (simp add: smallNetwork_def)
  note t = buildNetwork_dense [OF eq]
  from t have len: "map length (snd smallNetwork) = [2, 1]"
    by blast
  then have "length (map length (snd smallNetwork)) = 2"
    by simp
  then have two: "Suc 0 < length (snd smallNetwork)"
    by simp
  have "map length (snd smallNetwork) ! Suc 0 = 1"
    unfolding len by simp
  then have "length (snd smallNetwork ! Suc 0) = 1"
    using two by simp
  then have mem: "hd (snd smallNetwork ! Suc 0) \<in> set (snd smallNetwork ! Suc 0)"
    by (cases "snd smallNetwork ! Suc 0") simp_all
  from t two mem have "map (\<lambda>l. source (linkAt (fst smallNetwork) l))
         (inputLinks (nodeAt (fst smallNetwork) (hd (snd smallNetwork ! Suc 0))))
       = snd smallNetwork ! 0"
    by blast
  moreover from t two have "length (concat (map (\<lambda>a. inputLinks (nodeAt (fst smallNetwork) a))
         (snd smallNetwork ! Suc 0))) = [2, 1] ! 0 * [2, 1] ! Suc 0"
    by blast
  ultimately show ?thesis
    using len two mem by simp
qed

section \<open>The zero-initialised network\<close>

lemma forward_spec_node_fields:
  "bias (nodeAt (forward_spec_node a s) x) = bias (nodeAt s x)"
  "activation (nodeAt (forward_spec_node a s) x) = activation (nodeAt s x)"
  "linkAt (forward_spec_node a s) = linkAt s"
  by (simp_all add: forward_spec_node_def Let_def nodeAt_setNode)

lemma forward_zero:
  assumes net: "network \<noteq> []" "length inputs = length (hd network)"
    and tl: "tl network \<noteq> []" and last: "last network = [out]"
    and z: "zeroed h" and lin: "act_output (activation (nodeAt h out)) 0 = 0"
  shows "snd (forwardProp network inputs h) = Inr 0"
proof -
  let ?P = "\<lambda>s. zeroed s \<and> (\<forall>a. activation (nodeAt s a) = activation (nodeAt h a))"
  let ?h1 = "fold (\<lambda>(a, x). setNode a (\<lambda>n. n\<lparr>output := x\<rparr>)) (zip (hd network) inputs) h"
  let ?h3 = "fold (fold forward_spec_node) (butlast (tl network)) ?h1"
  have keep: "?P (forward_spec_node a s)" if "?P s" for a s
    using that by (simp add: zeroed_def forward_spec_node_fields)
  have "?P h"
    using z by simp
  then have "?P ?h1"
    by (rule fold_inv) (auto simp: zeroed_def nodeAt_setNode)
  then have P3: "?P ?h3"
    by (rule fold_inv) (rule fold_inv, assumption, rule keep)
  have "last (tl network) = [out]"
    using tl last net(1) by (metis last_tl)
  then have split: "tl network = butlast (tl network) @ [[out]]"
    using tl by (metis append_butlast_last_id)
  have "fold (fold forward_spec_node) (tl network) ?h1 = forward_spec_node out ?h3"
    by (subst split) simp
  moreover have "output (nodeAt (forward_spec_node out ?h3) out) = 0"
    using P3 lin by (simp add: forward_spec_node_def Let_def nodeAt_setNode zeroed_def)
  ultimately have "snd (forward_spec network inputs h) = 0"
    by (simp add: forward_spec_def Let_def last)
  moreover have "last network \<noteq> []"
    using last by simp
  ultimately show ?thesis
    using net by (simp add: forwardProp_runs)
qed

text \<open>
  C9. On the network built with shape \<open>[2, 2, 1]\<close>, sigmoid hidden activation, linear
  output activation and zero initialisation, whatever the regularization, the input
  identifiers, the random numbers drawn and the content of the unassigned fields, the
  forward pass with inputs \<open>[1, 1]\<close> returns exactly 0.
\<close>

theorem zero_init_forward:
  "snd (forwardProp (snd (buildNetwork [2, 2, 1] SIGMOID LINEAR reg inputIds True rnd unset)) [1, 1]
          (fst (buildNetwork [2, 2, 1] SIGMOID LINEAR reg inputIds True rnd unset))) = Inr 0"
proof -
  let ?B = "buildNetwork [2, 2, 1] SIGMOID LINEAR reg inputIds True rnd unset"
  have eq: "(fst ?B, snd ?B) = ?B"
    by simp
  note b = buildNetwork_building [OF eq]
  from b have z: "zeroed (fst ?B)" and len: "map length (snd ?B) = [2, 2, 1]"
    and a: "activated (length [2, 2, 1::nat]) SIGMOID LINEAR (fst ?B) (snd ?B)"
    by blast+
  from len obtain l0 l1 l2 where net: "snd ?B = [l0, l1, l2]"
    and l: "length l0 = 2" "length l1 = 2" "length l2 = 1"
    by (auto simp: map_eq_Cons_conv)
  from l(3) obtain out where out: "l2 = [out]"
    by (cases l2) auto
  have "2 < length (snd ?B)" and "out \<in> set (snd ?B ! 2)"
    unfolding net out by simp_all
  from a [unfolded activated_def, rule_format, OF this]
  have "activation (nodeAt (fst ?B) out) = LINEAR"
    by simp
  then have lin: "act_output (activation (nodeAt (fst ?B) out)) 0 = 0"
    by (simp add: LINEAR_def)
  show ?thesis
    unfolding net by (rule forward_zero [where out = out, OF _ _ _ _ z lin]) (simp_all add: out l)
qed

end
